theory Spec2Isabelle
  imports Main "HOL-Library.Sublist"
begin

section \<open>Strings of the chat client\<close>

text \<open>
  The renderer is the method \<^verbatim>\<open>formatMessageText\<close> of \<^verbatim>\<open>src/static/script.js\<close>.
  A JavaScript string is a sequence of UTF-16 code units, and every operation the
  method uses (\<^verbatim>\<open>replace\<close> with a regular expression without the \<^verbatim>\<open>u\<close> flag,
  \<^verbatim>\<open>split\<close>, \<^verbatim>\<open>trimEnd\<close>, \<^verbatim>\<open>trim\<close>, \<^verbatim>\<open>startsWith\<close>, \<^verbatim>\<open>match\<close>, \<^verbatim>\<open>join\<close>)
  works on code units. A code unit is modelled by its number; a string is a list of them.
  \<open>js\<close> turns an ASCII literal into such a list.
\<close>

type_synonym cunit = nat
type_synonym jsstring = "cunit list"

definition js :: "string \<Rightarrow> jsstring" where
  "js s = map of_char s"

definition amp :: cunit where "amp = 38"
definition lt :: cunit where "lt = 60"
definition gt :: cunit where "gt = 62"
definition star :: cunit where "star = 42"
definition backtick :: cunit where "backtick = 96"
definition hash :: cunit where "hash = 35"
definition newline :: cunit where "newline = 10"

text \<open>
  The class \<^verbatim>\<open>\s\<close> of a regular expression, which is also what \<^verbatim>\<open>trim\<close> and
  \<^verbatim>\<open>trimEnd\<close> strip (WhiteSpace and LineTerminator of ECMAScript): TAB, LF, VT, FF, CR,
  space, U+00A0, U+1680, U+2000 to U+200A, U+2028, U+2029, U+202F, U+205F, U+3000, U+FEFF.
\<close>

definition is_space :: "cunit \<Rightarrow> bool" where
  "is_space c \<longleftrightarrow>
     c = 9 \<or> c = 10 \<or> c = 11 \<or> c = 12 \<or> c = 13 \<or> c = 32 \<or> c = 160 \<or> c = 5760 \<or>
     (8192 \<le> c \<and> c \<le> 8202) \<or> c = 8232 \<or> c = 8233 \<or> c = 8239 \<or> c = 8287 \<or>
     c = 12288 \<or> c = 65279"

text \<open>The dot of a regular expression matches every code unit but LF, CR, U+2028, U+2029.\<close>

definition is_line_terminator :: "cunit \<Rightarrow> bool" where
  "is_line_terminator c \<longleftrightarrow> c = 10 \<or> c = 13 \<or> c = 8232 \<or> c = 8233"

definition is_digit :: "cunit \<Rightarrow> bool" where
  "is_digit c \<longleftrightarrow> 48 \<le> c \<and> c \<le> 57"

definition startsWith :: "jsstring \<Rightarrow> jsstring \<Rightarrow> bool" where
  "startsWith s p = prefix p s"

definition trimEnd :: "jsstring \<Rightarrow> jsstring" where
  "trimEnd s = rev (dropWhile is_space (rev s))"

definition trim :: "jsstring \<Rightarrow> jsstring" where
  "trim s = dropWhile is_space (trimEnd s)"

text \<open>\<^verbatim>\<open>text.split('\n')\<close>: the empty string gives one empty line.\<close>

fun split_lines :: "jsstring \<Rightarrow> jsstring list" where
  "split_lines [] = [[]]"
| "split_lines (c # s) =
     (if c = newline then [] # split_lines s
      else (case split_lines s of
              l # ls \<Rightarrow> (c # l) # ls
            | [] \<Rightarrow> [[c]]))"

text \<open>\<^verbatim>\<open>xs.join(sep)\<close>\<close>

fun join :: "jsstring \<Rightarrow> jsstring list \<Rightarrow> jsstring" where
  "join sep [] = []"
| "join sep [x] = x"
| "join sep (x # y # ys) = x @ sep @ join sep (y # ys)"

section \<open>escapeHtml\<close>

text \<open>
  \<^verbatim>\<open>str.replace(/c/g, r)\<close> for a single code unit \<open>c\<close>: every occurrence is replaced,
  left to right; the replacement is not scanned again.
\<close>

fun replace_unit :: "cunit \<Rightarrow> jsstring \<Rightarrow> jsstring \<Rightarrow> jsstring" where
  "replace_unit c r [] = []"
| "replace_unit c r (x # xs) =
     (if x = c then r @ replace_unit c r xs else x # replace_unit c r xs)"

text \<open>
  \<^verbatim>\<open>
  const escapeHtml = (str) => str
      .replace(/&/g, '&amp;')
      .replace(/</g, '&lt;')
      .replace(/>/g, '&gt;');
  \<close>
\<close>

definition escapeHtml :: "jsstring \<Rightarrow> jsstring" where
  "escapeHtml str =
     replace_unit gt (js ''&gt;'')
       (replace_unit lt (js ''&lt;'')
          (replace_unit amp (js ''&amp;'') str))"

section \<open>applyInlineFormatting\<close>

text \<open>
  The lazy group \<^verbatim>\<open>(.+?)\<close> followed by a closing delimiter \<open>d\<close>: the group takes one
  code unit, then grows one unit at a time until \<open>d\<close> follows; every unit it takes
  must be matched by the dot. The result is the group and what follows the delimiter.
\<close>

fun lazy_span :: "jsstring \<Rightarrow> jsstring \<Rightarrow> (jsstring \<times> jsstring) option" where
  "lazy_span d [] = None"
| "lazy_span d (c # s) =
     (if is_line_terminator c then None
      else if prefix d s then Some ([c], drop (length d) s)
      else (case lazy_span d s of
              None \<Rightarrow> None
            | Some (g, r) \<Rightarrow> Some (c # g, r)))"

lemma lazy_span_shorter:
  "lazy_span d s = Some (g, r) \<Longrightarrow> length r < length s"
  by (induction s arbitrary: g r) (auto split: if_splits option.splits)

text \<open>
  \<^verbatim>\<open>processed.replace(/D(.+?)D/g, 'OPEN$1CLOSE')\<close> for a literal delimiter \<open>D\<close>: at each
  position, left to right, a match is replaced and the scan goes on after it; where
  there is no match the code unit is kept and the scan moves by one.
\<close>

function replace_delimited ::
  "jsstring \<Rightarrow> jsstring \<Rightarrow> jsstring \<Rightarrow> jsstring \<Rightarrow> jsstring" where
  "replace_delimited d opn cls [] = []"
| "replace_delimited d opn cls (c # s) =
     (if prefix d (c # s) then
        (case lazy_span d (drop (length d) (c # s)) of
           Some (g, r) \<Rightarrow> opn @ g @ cls @ replace_delimited d opn cls r
         | None \<Rightarrow> c # replace_delimited d opn cls s)
      else c # replace_delimited d opn cls s)"
  by pat_completeness auto
termination
  by (relation "measure (\<lambda>(d, opn, cls, s). length s)")
    (auto dest: lazy_span_shorter)

text \<open>\<^verbatim>\<open>processed.replace(/\*\*(.+?)\*\*/g, '<strong>$1</strong>')\<close>\<close>

definition replace_bold :: "jsstring \<Rightarrow> jsstring" where
  "replace_bold = replace_delimited [star, star] (js ''<strong>'') (js ''</strong>'')"

text \<open>\<^verbatim>\<open>processed.replace(/\*(.+?)\*/g, '<em>$1</em>')\<close>\<close>

definition replace_italic :: "jsstring \<Rightarrow> jsstring" where
  "replace_italic = replace_delimited [star] (js ''<em>'') (js ''</em>'')"

text \<open>
  \<^verbatim>\<open>processed.replace(/`([^`]+)`/g, '<code>$1</code>')\<close>: after a backtick the group is the
  longest run without a backtick (line terminators included); it must not be empty and
  a backtick must follow it.
\<close>

function replace_code :: "jsstring \<Rightarrow> jsstring" where
  "replace_code [] = []"
| "replace_code (c # s) =
     (if c = backtick \<and> takeWhile (\<lambda>x. x \<noteq> backtick) s \<noteq> []
         \<and> dropWhile (\<lambda>x. x \<noteq> backtick) s \<noteq> []
      then js ''<code>'' @ takeWhile (\<lambda>x. x \<noteq> backtick) s @ js ''</code>''
             @ replace_code (tl (dropWhile (\<lambda>x. x \<noteq> backtick) s))
      else c # replace_code s)"
  by pat_completeness auto
termination
proof (relation "measure length", goal_cases)
  case 1
  show ?case by simp
next
  case (2 c s)
  have "length (dropWhile (\<lambda>x. x \<noteq> backtick) s) \<le> length s"
    by (rule length_dropWhile_le)
  then show ?case by simp
next
  case 3
  show ?case by simp
qed

text \<open>
  \<^verbatim>\<open>(https?:\/\/[^\s<]+)\<close> at the start of \<open>s\<close>: the scheme, then the longest run of
  code units that are neither white space nor \<^verbatim>\<open><\<close>, which must not be empty. The
  result is the match and the rest of the string.
\<close>

definition url_unit :: "cunit \<Rightarrow> bool" where
  "url_unit c \<longleftrightarrow> \<not> is_space c \<and> c \<noteq> lt"

definition match_scheme :: "jsstring \<Rightarrow> (jsstring \<times> jsstring) option" where
  "match_scheme s =
     (if prefix (js ''https://'') s then Some (js ''https://'', drop 8 s)
      else if prefix (js ''http://'') s then Some (js ''http://'', drop 7 s)
      else None)"

definition match_url :: "jsstring \<Rightarrow> (jsstring \<times> jsstring) option" where
  "match_url s =
     (case match_scheme s of
        None \<Rightarrow> None
      | Some (sch, rest) \<Rightarrow>
          if takeWhile url_unit rest = [] then None
          else Some (sch @ takeWhile url_unit rest, dropWhile url_unit rest))"

lemma match_url_shorter:
  "match_url s = Some (m, r) \<Longrightarrow> length r < length s"
proof -
  assume a: "match_url s = Some (m, r)"
  then obtain sch rest where ms: "match_scheme s = Some (sch, rest)"
    and r: "r = dropWhile url_unit rest"
    by (auto simp: match_url_def split: option.splits if_splits)
  from ms have "length rest < length s"
    by (auto simp: match_scheme_def js_def prefix_def split: if_splits)
  moreover have "length r \<le> length rest"
    unfolding r by (rule length_dropWhile_le)
  ultimately show ?thesis by simp
qed

text \<open>
  \<^verbatim>\<open>processed.replace(/(https?:\/\/[^\s<]+)/g, '<a href="$1" target="_blank">$1</a>')\<close>
\<close>

definition link_open :: "jsstring \<Rightarrow> jsstring" where
  \<open>link_open m = js ''<a href="'' @ m @ js ''" target="_blank">''\<close>

function replace_link :: "jsstring \<Rightarrow> jsstring" where
  "replace_link [] = []"
| "replace_link (c # s) =
     (case match_url (c # s) of
        Some (m, r) \<Rightarrow> link_open m @ m @ js ''</a>'' @ replace_link r
      | None \<Rightarrow> c # replace_link s)"
  by pat_completeness auto
termination
  by (relation "measure length") (auto dest: match_url_shorter)

text \<open>
  \<^verbatim>\<open>
  const applyInlineFormatting = (str) => {
      let processed = escapeHtml(str);
      processed = processed.replace(/\*\*(.+?)\*\*/g, '<strong>$1</strong>');
      processed = processed.replace(/\*(.+?)\*/g, '<em>$1</em>');
      processed = processed.replace(/`([^`]+)`/g, '<code>$1</code>');
      processed = processed.replace(/(https?:\/\/[^\s<]+)/g, '<a href="$1" target="_blank">$1</a>');
      return processed;
  };
  \<close>
\<close>

definition applyInlineFormatting :: "jsstring \<Rightarrow> jsstring" where
  "applyInlineFormatting str =
     replace_link (replace_code (replace_italic (replace_bold (escapeHtml str))))"

section \<open>The line scan of formatMessageText\<close>

text \<open>
  The local variables of the method: \<^verbatim>\<open>html\<close>, \<^verbatim>\<open>listBuffer\<close>, \<^verbatim>\<open>listType\<close>
  (\<^verbatim>\<open>null\<close>, \<^verbatim>\<open>'ul'\<close> or \<^verbatim>\<open>'ol'\<close>), \<^verbatim>\<open>inCodeBlock\<close> and \<^verbatim>\<open>codeBuffer\<close>.
\<close>

datatype list_type = UL | OL

record state =
  html :: jsstring
  listBuffer :: "jsstring list"
  listType :: "list_type option"
  inCodeBlock :: bool
  codeBuffer :: "jsstring list"

definition init :: state where
  "init = \<lparr>html = [], listBuffer = [], listType = None, inCodeBlock = False, codeBuffer = []\<rparr>"

text \<open>What the template literal \<^verbatim>\<open>${listType}\<close> prints.\<close>

fun show_listType :: "list_type option \<Rightarrow> jsstring" where
  "show_listType None = js ''null''"
| "show_listType (Some UL) = js ''ul''"
| "show_listType (Some OL) = js ''ol''"

text \<open>
  \<^verbatim>\<open>
  const flushList = () => {
      if (listBuffer.length) {
          html += `<${listType}>${listBuffer.join('')}</${listType}>`;
          listBuffer = [];
          listType = null;
      }
  };
  \<close>
\<close>

definition list_block :: "list_type option \<Rightarrow> jsstring list \<Rightarrow> jsstring" where
  "list_block t items =
     js ''<'' @ show_listType t @ js ''>'' @ join [] items @ js ''</'' @ show_listType t @ js ''>''"

definition flushList :: "state \<Rightarrow> state" where
  "flushList st =
     (if listBuffer st \<noteq> [] then
        st\<lparr>html := html st @ list_block (listType st) (listBuffer st),
           listBuffer := [], listType := None\<rparr>
      else st)"

text \<open>
  \<^verbatim>\<open>
  const flushCode = () => {
      if (codeBuffer.length) {
          html += `<pre><code>${escapeHtml(codeBuffer.join('\n'))}</code></pre>`;
          codeBuffer = [];
      }
  };
  \<close>
\<close>

definition code_block :: "jsstring list \<Rightarrow> jsstring" where
  "code_block ls = js ''<pre><code>'' @ escapeHtml (join [newline] ls) @ js ''</code></pre>''"

definition flushCode :: "state \<Rightarrow> state" where
  "flushCode st =
     (if codeBuffer st \<noteq> [] then
        st\<lparr>html := html st @ code_block (codeBuffer st), codeBuffer := []\<rparr>
      else st)"

text \<open>
  The tail \<^verbatim>\<open>\s+(.*)\<close> of the three line patterns, applied to what follows the marker:
  at least one white space unit, as many as there are, and the group is what follows up
  to the first line terminator (the dot does not match one, and the pattern has no
  \<^verbatim>\<open>$\<close>). The result is the group.
\<close>

definition space_then_rest :: "jsstring \<Rightarrow> jsstring option" where
  "space_then_rest s =
     (case s of
        [] \<Rightarrow> None
      | c # _ \<Rightarrow>
          if is_space c
          then Some (takeWhile (\<lambda>x. \<not> is_line_terminator x) (dropWhile is_space s))
          else None)"

text \<open>
  \<^verbatim>\<open>line.match(/^(#{1,4})\s+(.*)/)\<close>: the groups 1 and 2. With more than four
  \<^verbatim>\<open>#\<close> in front, the unit after the first four (or fewer) is a \<^verbatim>\<open>#\<close>, not white
  space, so there is no match.
\<close>

definition match_heading :: "jsstring \<Rightarrow> (jsstring \<times> jsstring) option" where
  "match_heading line =
     (let hs = takeWhile (\<lambda>c. c = hash) line in
      if 1 \<le> length hs \<and> length hs \<le> 4 then
        (case space_then_rest (dropWhile (\<lambda>c. c = hash) line) of
           None \<Rightarrow> None
         | Some g \<Rightarrow> Some (hs, g))
      else None)"

text \<open>
  \<^verbatim>\<open>line.match(/^[-*...]\s+(.*)/)\<close>: the group 1. Besides \<^verbatim>\<open>-\<close> and \<^verbatim>\<open>*\<close> the class
  holds, in the file as it is (bytes C3 A2, E2 82 AC, C2 A2, read as UTF-8), the three
  code units U+00E2, U+20AC and U+00A2.
\<close>

definition is_bullet :: "cunit \<Rightarrow> bool" where
  "is_bullet c \<longleftrightarrow> c = 45 \<or> c = 42 \<or> c = 226 \<or> c = 8364 \<or> c = 162"

definition match_bullet :: "jsstring \<Rightarrow> jsstring option" where
  "match_bullet line =
     (case line of
        [] \<Rightarrow> None
      | c # s \<Rightarrow> if is_bullet c then space_then_rest s else None)"

text \<open>\<^verbatim>\<open>line.match(/^\d+\.\s+(.*)/)\<close>: the group 1.\<close>

definition match_ordered :: "jsstring \<Rightarrow> jsstring option" where
  "match_ordered line =
     (if takeWhile is_digit line = [] then None
      else (case dropWhile is_digit line of
              [] \<Rightarrow> None
            | c # s \<Rightarrow> if c = 46 then space_then_rest s else None))"

text \<open>
  \<^verbatim>\<open>`<h${level}>...</h${level}>`\<close> with \<^verbatim>\<open>level = Math.min(headingMatch[1].length + 2, 5)\<close>:
  the level is at most 5, so it prints as one digit.
\<close>

definition heading_level :: "jsstring \<Rightarrow> nat" where
  "heading_level hs = min (length hs + 2) 5"

definition show_level :: "nat \<Rightarrow> jsstring" where
  "show_level level = [48 + level]"

definition heading_block :: "nat \<Rightarrow> jsstring \<Rightarrow> jsstring" where
  "heading_block level content =
     js ''<h'' @ show_level level @ js ''>'' @ content @ js ''</h'' @ show_level level @ js ''>''"

definition list_item :: "jsstring \<Rightarrow> jsstring" where
  "list_item content = js ''<li>'' @ content @ js ''</li>''"

definition paragraph_block :: "jsstring \<Rightarrow> jsstring" where
  "paragraph_block content = js ''<p>'' @ content @ js ''</p>''"

text \<open>
  The bullet and the ordered branch:
  \<^verbatim>\<open>
  if (listType !== 'ul') { flushList(); listType = 'ul'; }
  listBuffer.push(`<li>${applyInlineFormatting(bulletMatch[1])}</li>`);
  \<close>
\<close>

definition push_item :: "list_type \<Rightarrow> jsstring \<Rightarrow> state \<Rightarrow> state" where
  "push_item t g st =
     (let st1 = (if listType st \<noteq> Some t then (flushList st)\<lparr>listType := Some t\<rparr> else st)
      in st1\<lparr>listBuffer := listBuffer st1 @ [list_item (applyInlineFormatting g)]\<rparr>)"

text \<open>The body of \<^verbatim>\<open>for (let rawLine of lines)\<close>, one line at a time.\<close>

definition step :: "state \<Rightarrow> jsstring \<Rightarrow> state" where
  "step st rawLine =
     (let line = trimEnd rawLine in
      if startsWith line (js ''```'') then
        (if inCodeBlock st then (flushCode st)\<lparr>inCodeBlock := False\<rparr>
         else (flushList st)\<lparr>inCodeBlock := True\<rparr>)
      else if inCodeBlock st then st\<lparr>codeBuffer := codeBuffer st @ [rawLine]\<rparr>
      else if trim line = [] then
        (let st1 = flushList st in st1\<lparr>html := html st1 @ js ''<br>''\<rparr>)
      else
        (case match_heading line of
           Some (hs, g) \<Rightarrow>
             (let st1 = flushList st in
              st1\<lparr>html := html st1
                       @ heading_block (heading_level hs) (applyInlineFormatting g)\<rparr>)
         | None \<Rightarrow>
             (case match_bullet line of
                Some g \<Rightarrow> push_item UL g st
              | None \<Rightarrow>
                  (case match_ordered line of
                     Some g \<Rightarrow> push_item OL g st
                   | None \<Rightarrow>
                       (let st1 = flushList st in
                        st1\<lparr>html := html st1 @ paragraph_block (applyInlineFormatting line)\<rparr>)))))"

text \<open>
  The whole method: the scan, the two flushes at the end, and
  \<^verbatim>\<open>return html || applyInlineFormatting(text)\<close> (the empty string is falsy).
\<close>

definition scan :: "jsstring \<Rightarrow> state" where
  "scan text = foldl step init (split_lines text)"

definition formatMessageText :: "jsstring \<Rightarrow> jsstring" where
  "formatMessageText text =
     (let st = flushCode (flushList (scan text)) in
      if html st = [] then applyInlineFormatting text else html st)"

section \<open>Vocabulary of the properties\<close>

text \<open>
  The escaper as its contract words it, one code unit at a time: \<^verbatim>\<open>&\<close>, \<^verbatim>\<open><\<close> and
  \<^verbatim>\<open>>\<close> become their entities, every other unit stays.
\<close>

definition escape_unit :: "cunit \<Rightarrow> jsstring" where
  "escape_unit c =
     (if c = amp then js ''&amp;''
      else if c = lt then js ''&lt;''
      else if c = gt then js ''&gt;''
      else [c])"

text \<open>
  The inline formatter as its contract words it: a function of the already escaped text
  that applies the four substitutions in the order bold, italic, inline code, autolink.
\<close>

definition formatInline :: "jsstring \<Rightarrow> jsstring" where
  "formatInline escapedText =
     replace_link (replace_code (replace_italic (replace_bold escapedText)))"

text \<open>The test of the first branch of the loop body: \<^verbatim>\<open>line.startsWith('```')\<close>.\<close>

definition fence_line :: "jsstring \<Rightarrow> bool" where
  "fence_line rawLine = startsWith (trimEnd rawLine) (js ''```'')"

text \<open>
  The buffers of a state exclude each other: inside a code block there is no list, outside
  there is no buffered code, and a list has a type exactly when it has items.
\<close>

definition exclusive :: "state \<Rightarrow> bool" where
  "exclusive st \<longleftrightarrow>
     (if inCodeBlock st then listBuffer st = [] \<and> listType st = None
      else codeBuffer st = [] \<and> (listBuffer st = []) = (listType st = None))"

text \<open>
  A line of a list of kind \<open>t\<close> (the bullet pattern for \<open>UL\<close>, the ordered pattern for
  \<open>OL\<close>, on the line without its trailing white space), and the item it contributes.
\<close>

definition list_line :: "list_type \<Rightarrow> jsstring \<Rightarrow> bool" where
  "list_line t rawLine =
     (case t of UL \<Rightarrow> match_bullet (trimEnd rawLine) \<noteq> None
              | OL \<Rightarrow> match_ordered (trimEnd rawLine) \<noteq> None)"

definition item_of :: "list_type \<Rightarrow> jsstring \<Rightarrow> jsstring" where
  "item_of t rawLine =
     (case (case t of UL \<Rightarrow> match_bullet (trimEnd rawLine)
                    | OL \<Rightarrow> match_ordered (trimEnd rawLine)) of
        Some g \<Rightarrow> list_item (applyInlineFormatting g)
      | None \<Rightarrow> [])"

text \<open>
  Markup as a language of tokens. A text unit is any code unit but \<^verbatim>\<open><\<close>, \<^verbatim>\<open>>\<close> and
  \<^verbatim>\<open>&\<close>; \<open>lang T\<close> is the set of the concatenations of tokens of \<open>T\<close>. Escaped
  text is made of text units and entities. The generated tags are the tags the renderer
  writes: the inline tags, the opening hyperlink tag around an address that is escaped
  text and the closing one, and the block tags.
\<close>

definition plain :: "cunit \<Rightarrow> bool" where
  "plain c \<longleftrightarrow> c \<noteq> lt \<and> c \<noteq> gt \<and> c \<noteq> amp"

inductive_set lang :: "jsstring set \<Rightarrow> jsstring set" for T :: "jsstring set" where
  empty: "[] \<in> lang T"
| token: "t \<in> T \<Longrightarrow> s \<in> lang T \<Longrightarrow> t @ s \<in> lang T"

definition entities :: "jsstring set" where
  "entities = {js ''&amp;'', js ''&lt;'', js ''&gt;''}"

definition text_tokens :: "jsstring set" where
  "text_tokens = {[c] | c. plain c} \<union> entities"

definition inline_tags :: "jsstring set" where
  "inline_tags = {js ''<strong>'', js ''</strong>'', js ''<em>'', js ''</em>'',
                  js ''<code>'', js ''</code>''}"

definition link_tags :: "jsstring set" where
  "link_tags = {link_open u | u. u \<in> lang text_tokens} \<union> {js ''</a>''}"

definition block_tags :: "jsstring set" where
  "block_tags = {js ''<ul>'', js ''</ul>'', js ''<ol>'', js ''</ol>'', js ''<li>'', js ''</li>'',
                 js ''<h3>'', js ''</h3>'', js ''<h4>'', js ''</h4>'', js ''<h5>'', js ''</h5>'',
                 js ''<p>'', js ''</p>'', js ''<br>'', js ''<pre>'', js ''</pre>''}"

definition generated_tags :: "jsstring set" where
  "generated_tags = inline_tags \<union> link_tags \<union> block_tags"

definition inline_tokens :: "jsstring set" where
  "inline_tokens = text_tokens \<union> inline_tags"

definition markup_tokens :: "jsstring set" where
  "markup_tokens = text_tokens \<union> generated_tags"

definition safe_markup :: "jsstring \<Rightarrow> bool" where
  "safe_markup s \<longleftrightarrow> s \<in> lang markup_tokens"

text \<open>The string \<open>t\<close> stands in \<open>s\<close> at index \<open>i\<close>.\<close>

definition occurs :: "jsstring \<Rightarrow> jsstring \<Rightarrow> nat \<Rightarrow> bool" where
  "occurs t s i \<longleftrightarrow> take (length t) (drop i s) = t"

text \<open>
  A state whose \<^verbatim>\<open>html\<close> and buffered list items are safe markup, with a list type
  whenever a list is open.
\<close>

definition safe_state :: "state \<Rightarrow> bool" where
  "safe_state st \<longleftrightarrow>
     html st \<in> lang markup_tokens
     \<and> list_all (\<lambda>x. x \<in> lang markup_tokens) (listBuffer st)
     \<and> (listBuffer st = [] \<or> listType st \<noteq> None)"

section \<open>Unfolding on concrete inputs\<close>

lemmas units = amp_def lt_def gt_def star_def backtick_def hash_def newline_def

lemmas classes = is_space_def is_line_terminator_def is_digit_def is_bullet_def url_unit_def

lemmas inline_defs = applyInlineFormatting_def escapeHtml_def replace_bold_def
  replace_italic_def match_url_def match_scheme_def link_open_def js_def

lemmas block_defs = formatMessageText_def scan_def step_def init_def flushList_def
  flushCode_def list_block_def code_block_def push_item_def startsWith_def trimEnd_def
  trim_def match_heading_def match_bullet_def match_ordered_def space_then_rest_def
  heading_level_def show_level_def heading_block_def list_item_def paragraph_block_def

section \<open>The escaper\<close>

lemma replace_unit_append:
  "replace_unit c r (a @ b) = replace_unit c r a @ replace_unit c r b"
  by (induction a) simp_all

lemma escapeHtml_Nil: "escapeHtml [] = []"
  by (simp add: escapeHtml_def)

lemma escapeHtml_Cons: "escapeHtml (x # xs) = escape_unit x @ escapeHtml xs"
  by (simp add: escapeHtml_def escape_unit_def replace_unit_append units js_def)

lemma escapeHtml_concat: "escapeHtml str = concat (map escape_unit str)"
  by (induction str) (simp_all add: escapeHtml_Nil escapeHtml_Cons)

text \<open>
  C4. \<open>escapeHtml\<close> is the three substitutions in the order \<^verbatim>\<open>&\<close>, \<^verbatim>\<open><\<close>, \<^verbatim>\<open>>\<close>, and
  their composition maps each code unit of the input on its own: \<^verbatim>\<open>&\<close> to \<^verbatim>\<open>&amp;\<close>,
  \<^verbatim>\<open><\<close> to \<^verbatim>\<open>&lt;\<close>, \<^verbatim>\<open>>\<close> to \<^verbatim>\<open>&gt;\<close>, any other unit to itself. So the
  \<^verbatim>\<open>&\<close> of an entity that a substitution wrote is never encoded again, and the
  function is defined on every string.
\<close>

theorem escapeHtml_contract:
  "escapeHtml str =
     replace_unit gt (js ''&gt;'')
       (replace_unit lt (js ''&lt;'') (replace_unit amp (js ''&amp;'') str))
   \<and> escapeHtml str = concat (map escape_unit str)"
  using escapeHtml_concat [of str] by (simp add: escapeHtml_def)

section \<open>The inline formatter\<close>

text \<open>
  C5. \<open>applyInlineFormatting\<close> is the inline formatter of the contract after the
  escaper, and the escaper leaves the four unit inputs as they are. On them the formatter
  gives a strong tag, an emphasis tag, a code tag and a hyperlink tag around the address
  that opens in a new browsing context. A span between delimiters ends at the first
  closing delimiter (two spans in one text give two tags); the address of a hyperlink
  runs up to the next white space or \<^verbatim>\<open><\<close>. The order of the substitutions is bold,
  italic, inline code, autolink.
\<close>

theorem inline_units:
  \<open>applyInlineFormatting str = formatInline (escapeHtml str)
   \<and> formatInline str = replace_link (replace_code (replace_italic (replace_bold str)))
   \<and> escapeHtml (js ''**bold**'') = js ''**bold**''
   \<and> escapeHtml (js ''*em*'') = js ''*em*''
   \<and> escapeHtml (js ''`code`'') = js ''`code`''
   \<and> escapeHtml (js ''http://x.com'') = js ''http://x.com''
   \<and> formatInline (js ''**bold**'') = js ''<strong>bold</strong>''
   \<and> formatInline (js ''*em*'') = js ''<em>em</em>''
   \<and> formatInline (js ''`code`'') = js ''<code>code</code>''
   \<and> formatInline (js ''http://x.com'')
       = js ''<a href="http://x.com" target="_blank">http://x.com</a>''
   \<and> formatInline (js ''**a** and **b**'') = js ''<strong>a</strong> and <strong>b</strong>''
   \<and> formatInline (js ''*a* and *b*'') = js ''<em>a</em> and <em>b</em>''
   \<and> formatInline (js ''`a` and `b`'') = js ''<code>a</code> and <code>b</code>''
   \<and> formatInline (js ''see http://x.com now'')
       = js ''see <a href="http://x.com" target="_blank">http://x.com</a> now''
   \<and> replace_bold (js ''***a***'') = js ''<strong>*a</strong>*''
   \<and> formatInline (js ''***a***'') = js ''<strong><em>a</strong></em>''\<close>
  by (simp add: units classes inline_defs formatInline_def)

text \<open>
  C10. The autolink substitution runs over the output of the inline code substitution:
  a URL between backticks comes out inside a code tag and hyperlinked.
\<close>

theorem link_inside_code:
  \<open>escapeHtml (js ''`http://x.com`'') = js ''`http://x.com`''
   \<and> formatInline (js ''`http://x.com`'')
       = js ''<code><a href="http://x.com" target="_blank">http://x.com</a></code>''
   \<and> applyInlineFormatting (js ''`http://x.com`'')
       = js ''<code><a href="http://x.com" target="_blank">http://x.com</a></code>''
   \<and> formatInline (js ''`http://x.com`'') \<noteq> js ''<code>http://x.com</code>''
   \<and> replace_code (js ''`http://x.com`'') = js ''<code>http://x.com</code>''\<close>
  by (simp add: units classes inline_defs formatInline_def)

section \<open>The empty input\<close>

text \<open>
  C3, as stated: the renderer on the empty string returns the inline-formatted escaped
  empty string, which is empty. It does not: the only line of the empty string is a
  blank line.
\<close>

theorem empty_input_counterexample:
  "formatMessageText [] \<noteq> formatInline (escapeHtml [])
   \<and> formatMessageText [] \<noteq> []
   \<and> html (scan []) \<noteq> []"
  by (simp add: units classes inline_defs block_defs formatInline_def)

text \<open>
  C3, amended. The empty string is one blank line, for which the scan emits a line break:
  the renderer returns \<^verbatim>\<open><br>\<close> and does not take the fallback. The fallback is taken
  when the scan and the final flushes leave \<^verbatim>\<open>html\<close> empty, as on a lone fence line,
  and returns the inline-formatted input; the inline formatter maps the empty string to
  the empty string.
\<close>

theorem empty_input_line_break:
  "formatMessageText [] = js ''<br>''
   \<and> html (scan []) = js ''<br>''
   \<and> formatInline (escapeHtml []) = []
   \<and> html (flushCode (flushList (scan (js ''```'')))) = []
   \<and> formatMessageText (js ''```'') = formatInline (escapeHtml (js ''```''))"
  by (simp add: units classes inline_defs block_defs formatInline_def)

section \<open>The line scan\<close>

lemma flushList_simps [simp]:
  "inCodeBlock (flushList st) = inCodeBlock st"
  "codeBuffer (flushList st) = codeBuffer st"
  "listBuffer (flushList st) = []"
  by (simp_all add: flushList_def)

lemma flushCode_simps [simp]:
  "inCodeBlock (flushCode st) = inCodeBlock st"
  "listBuffer (flushCode st) = listBuffer st"
  "listType (flushCode st) = listType st"
  "codeBuffer (flushCode st) = []"
  by (simp_all add: flushCode_def)

lemma push_item_simps [simp]:
  "inCodeBlock (push_item t g st) = inCodeBlock st"
  "codeBuffer (push_item t g st) = codeBuffer st"
  "listType (push_item t g st) = Some t"
  "listBuffer (push_item t g st) \<noteq> []"
  by (simp_all add: push_item_def Let_def)

lemma step_fence:
  "fence_line rawLine \<Longrightarrow>
   step st rawLine =
     (if inCodeBlock st then (flushCode st)\<lparr>inCodeBlock := False\<rparr>
      else (flushList st)\<lparr>inCodeBlock := True\<rparr>)"
  by (simp add: step_def fence_line_def)

lemma step_in_code:
  "\<not> fence_line rawLine \<Longrightarrow> inCodeBlock st \<Longrightarrow>
   step st rawLine = st\<lparr>codeBuffer := codeBuffer st @ [rawLine]\<rparr>"
  by (simp add: step_def fence_line_def)

lemma step_keeps_inCodeBlock:
  "\<not> fence_line rawLine \<Longrightarrow> inCodeBlock (step st rawLine) = inCodeBlock st"
  by (simp add: step_def fence_line_def Let_def split: option.splits prod.splits)

lemma step_keeps_codeBuffer:
  "\<not> inCodeBlock st \<Longrightarrow> codeBuffer (step st rawLine) = codeBuffer st"
  by (simp add: step_def Let_def split: option.splits prod.splits)

text \<open>
  C2, as stated: a line toggles the code region if and only if its trimmed content is
  exactly three backticks. Neither direction holds: a line that goes on after the three
  backticks toggles, and a line with white space before them does not.
\<close>

theorem fence_counterexample:
  "inCodeBlock (step init (js ''```js'')) \<noteq> inCodeBlock init
   \<and> trim (js ''```js'') \<noteq> js ''```''
   \<and> trimEnd (js ''```js'') \<noteq> js ''```''
   \<and> inCodeBlock (step init (js '' ```'')) = inCodeBlock init
   \<and> trim (js '' ```'') = js ''```''"
  by (simp add: units classes inline_defs block_defs)

text \<open>
  C2, amended. A line toggles the code region if and only if, with its trailing white
  space stripped, it starts with three backticks. Such a line inside a code block
  flushes the code buffer (one code block, when the buffer is not empty) and leaves the
  code block; outside, it flushes the open list, if any, and enters the code block.
  Nothing of the line itself is appended to \<^verbatim>\<open>html\<close>.
\<close>

theorem fence_toggle:
  "(inCodeBlock (step st rawLine) \<noteq> inCodeBlock st) = startsWith (trimEnd rawLine) (js ''```'')
   \<and> (startsWith (trimEnd rawLine) (js ''```'') \<longrightarrow>
        step st rawLine =
          (if inCodeBlock st then (flushCode st)\<lparr>inCodeBlock := False\<rparr>
           else (flushList st)\<lparr>inCodeBlock := True\<rparr>)
        \<and> html (step st rawLine) =
          (if inCodeBlock st then
             (if codeBuffer st = [] then html st else html st @ code_block (codeBuffer st))
           else
             (if listBuffer st = [] then html st
              else html st @ list_block (listType st) (listBuffer st))))"
proof (cases "fence_line rawLine")
  case True
  then show ?thesis
    using step_fence [OF True, of st]
    by (simp add: fence_line_def flushCode_def flushList_def)
next
  case False
  then show ?thesis
    using step_keeps_inCodeBlock [OF False, of st] by (simp add: fence_line_def)
qed

theorem fence_toggle_witness:
  "startsWith (trimEnd (js ''```python  '')) (js ''```'')
   \<and> step (step init (js ''- a'')) (js ''```python  '')
       = \<lparr>html = js ''<ul><li>a</li></ul>'', listBuffer = [], listType = None,
          inCodeBlock = True, codeBuffer = []\<rparr>"
  using fence_toggle [of "step init (js ''- a'')" "js ''```python  ''"]
  by (simp add: units classes inline_defs block_defs)

lemma exclusive_init: "exclusive init"
  by (simp add: exclusive_def init_def)

lemma exclusive_step: "exclusive st \<Longrightarrow> exclusive (step st rawLine)"
  by (auto simp add: exclusive_def step_def Let_def flushList_def flushCode_def push_item_def
      split: option.splits prod.splits if_splits)

lemma exclusive_foldl: "exclusive st \<Longrightarrow> exclusive (foldl step st ls)"
  by (induction ls arbitrary: st) (simp_all add: exclusive_step)

lemma exclusive_scan: "exclusive (scan text)"
  by (simp add: scan_def exclusive_foldl exclusive_init)



section \<open>Headings\<close>

lemma trimEnd_append:
  assumes "\<exists>c\<in>set b. \<not> is_space c"
  shows "trimEnd (a @ b) = a @ trimEnd b"
proof -
  from assms obtain c where "c \<in> set (rev b)" "\<not> is_space c" by auto
  then have "dropWhile is_space (rev b @ rev a) = dropWhile is_space (rev b) @ rev a"
    by (rule dropWhile_append1)
  then show ?thesis by (simp add: trimEnd_def)
qed

lemma trimEnd_Cons:
  "\<exists>c\<in>set b. \<not> is_space c \<Longrightarrow> trimEnd (x # b) = x # trimEnd b"
  using trimEnd_append [of b "[x]"] by simp

lemma trimEnd_idem: "trimEnd (trimEnd s) = trimEnd s"
proof (cases "dropWhile is_space (rev s)")
  case Nil
  then show ?thesis by (simp add: trimEnd_def)
next
  case (Cons x xs)
  then have "\<not> is_space x" using hd_dropWhile [of is_space "rev s"] by auto
  then show ?thesis by (simp add: trimEnd_def Cons)
qed

lemma takeWhile_replicate_append:
  "\<not> P y \<Longrightarrow> P x \<Longrightarrow> takeWhile P (replicate n x @ y # ys) = replicate n x"
  by (induction n) simp_all

lemma dropWhile_replicate_append:
  "\<not> P y \<Longrightarrow> P x \<Longrightarrow> dropWhile P (replicate n x @ y # ys) = y # ys"
  by (induction n) simp_all

lemma heading_line:
  assumes n: "1 \<le> n" "n \<le> 4" and t: "\<exists>c\<in>set text. \<not> is_space c"
  shows "trimEnd (replicate n hash @ 32 # text) = replicate n hash @ 32 # trimEnd text"
    and "match_heading (replicate n hash @ 32 # trimEnd text)
         = Some (replicate n hash,
                 takeWhile (\<lambda>x. \<not> is_line_terminator x) (dropWhile is_space (trimEnd text)))"
    and "\<not> startsWith (replicate n hash @ 32 # trimEnd text) (js ''```'')"
    and "trim (replicate n hash @ 32 # trimEnd text) \<noteq> []"
proof -
  have "\<exists>c\<in>set (32 # text). \<not> is_space c" using t by auto
  then show te: "trimEnd (replicate n hash @ 32 # text) = replicate n hash @ 32 # trimEnd text"
    using trimEnd_append [of "32 # text" "replicate n hash"] trimEnd_Cons [OF t, of 32]
    by simp
  have tw: "takeWhile (\<lambda>c. c = hash) (replicate n hash @ 32 # trimEnd text) = replicate n hash"
    by (rule takeWhile_replicate_append) (simp_all add: hash_def)
  have dw: "dropWhile (\<lambda>c. c = hash) (replicate n hash @ 32 # trimEnd text) = 32 # trimEnd text"
    by (rule dropWhile_replicate_append) (simp_all add: hash_def)
  show "match_heading (replicate n hash @ 32 # trimEnd text)
         = Some (replicate n hash,
                 takeWhile (\<lambda>x. \<not> is_line_terminator x) (dropWhile is_space (trimEnd text)))"
    unfolding match_heading_def tw dw using n
    by (simp add: space_then_rest_def is_space_def)
  obtain m where m: "n = Suc m" using n by (cases n) auto
  show "\<not> startsWith (replicate n hash @ 32 # trimEnd text) (js ''```'')"
    by (simp add: m startsWith_def js_def hash_def)
  have "trimEnd (replicate n hash @ 32 # trimEnd text) = replicate n hash @ 32 # trimEnd text"
    using te trimEnd_idem [of "replicate n hash @ 32 # text"] by simp
  then show "trim (replicate n hash @ 32 # trimEnd text) \<noteq> []"
    by (simp add: trim_def m hash_def is_space_def)
qed

text \<open>
  C6. Outside a code block, a line of \<open>n\<close> \<^verbatim>\<open>#\<close> (1 to 4 of them), a space and a
  text that is not blank flushes the open list and appends a heading of level
  \<open>min (n + 2) 5\<close>, whose content is the inline-formatted text of the line (group 2 of
  the pattern: the line without its trailing white space, after the white space that
  follows the \<^verbatim>\<open>#\<close>, up to a line terminator). One \<^verbatim>\<open>#\<close> gives level 3, four give
  level 5.
\<close>

theorem heading_rule:
  assumes "1 \<le> n" and "n \<le> 4" and "\<not> inCodeBlock st" and "\<exists>c\<in>set text. \<not> is_space c"
  shows "step st (replicate n hash @ 32 # text) =
           (flushList st)\<lparr>html := html (flushList st)
              @ heading_block (min (n + 2) 5)
                  (applyInlineFormatting
                     (takeWhile (\<lambda>x. \<not> is_line_terminator x)
                        (dropWhile is_space (trimEnd text))))\<rparr>
         \<and> listBuffer (step st (replicate n hash @ 32 # text)) = []
         \<and> formatMessageText (js ''# Title'') = js ''<h3>Title</h3>''
         \<and> formatMessageText (js ''## Title'') = js ''<h4>Title</h4>''
         \<and> formatMessageText (js ''### Title'') = js ''<h5>Title</h5>''
         \<and> formatMessageText (js ''#### Title'') = js ''<h5>Title</h5>''
         \<and> formatMessageText (js ''# **b** *i*'') = js ''<h3><strong>b</strong> <em>i</em></h3>''"
proof -
  note h = heading_line [OF assms(1,2,4)]
  have s: "step st (replicate n hash @ 32 # text) =
           (flushList st)\<lparr>html := html (flushList st)
              @ heading_block (min (n + 2) 5)
                  (applyInlineFormatting
                     (takeWhile (\<lambda>x. \<not> is_line_terminator x)
                        (dropWhile is_space (trimEnd text))))\<rparr>"
    using assms(3) h(3,4)
    by (simp add: step_def h(1) h(2) heading_level_def Let_def)
  have l: "listBuffer (step st (replicate n hash @ 32 # text)) = []"
    unfolding s by simp
  have e: "formatMessageText (js ''# Title'') = js ''<h3>Title</h3>''
         \<and> formatMessageText (js ''## Title'') = js ''<h4>Title</h4>''
         \<and> formatMessageText (js ''### Title'') = js ''<h5>Title</h5>''
         \<and> formatMessageText (js ''#### Title'') = js ''<h5>Title</h5>''
         \<and> formatMessageText (js ''# **b** *i*'') = js ''<h3><strong>b</strong> <em>i</em></h3>''"
    by (simp add: units classes inline_defs block_defs)
  from s l e show ?thesis by blast
qed

theorem heading_rule_witness:
  "step (step init (js ''- a'')) (js ''## Sub *x*  '')
     = \<lparr>html = js ''<ul><li>a</li></ul><h4>Sub <em>x</em></h4>'', listBuffer = [],
        listType = None, inCodeBlock = False, codeBuffer = []\<rparr>"
proof -
  have "\<exists>c\<in>set (js ''Sub *x*  ''). \<not> is_space c"
    by (simp add: js_def is_space_def)
  from heading_rule [of 2 "step init (js ''- a'')" "js ''Sub *x*  ''", OF _ _ _ this]
  show ?thesis
    by (simp add: units classes inline_defs block_defs)
qed

section \<open>Lists\<close>

lemma match_bullet_line:
  assumes "match_bullet line = Some g"
  shows "\<not> startsWith line (js ''```'')" and "trim line \<noteq> [] \<or> trimEnd line \<noteq> line"
    and "match_heading line = None"
proof -
  from assms obtain c s where l: "line = c # s" and b: "is_bullet c"
    by (auto simp: match_bullet_def split: list.splits if_splits)
  show "\<not> startsWith line (js ''```'')"
    using b by (auto simp: l startsWith_def js_def is_bullet_def)
  show "match_heading line = None"
    using b by (auto simp: l match_heading_def is_bullet_def hash_def)
  show "trim line \<noteq> [] \<or> trimEnd line \<noteq> line"
  proof (cases "trimEnd line = line")
    case True
    then have "trim line = dropWhile is_space line" by (simp add: trim_def)
    then show ?thesis using b by (auto simp: l is_bullet_def is_space_def)
  next
    case False
    then show ?thesis by simp
  qed
qed

lemma match_ordered_line:
  assumes "match_ordered line = Some g"
  shows "\<not> startsWith line (js ''```'')" and "trim line \<noteq> [] \<or> trimEnd line \<noteq> line"
    and "match_heading line = None" and "match_bullet line = None"
proof -
  from assms have "takeWhile is_digit line \<noteq> []"
    by (auto simp: match_ordered_def split: if_splits)
  then obtain c s where l: "line = c # s" and b: "is_digit c"
    by (cases line) (auto split: if_splits)
  show "\<not> startsWith line (js ''```'')"
    using b by (auto simp: l startsWith_def js_def is_digit_def)
  show "match_heading line = None"
    using b by (auto simp: l match_heading_def is_digit_def hash_def)
  show "match_bullet line = None"
    using b by (auto simp: l match_bullet_def is_digit_def is_bullet_def)
  show "trim line \<noteq> [] \<or> trimEnd line \<noteq> line"
  proof (cases "trimEnd line = line")
    case True
    then have "trim line = dropWhile is_space line" by (simp add: trim_def)
    then show ?thesis using b by (auto simp: l is_digit_def is_space_def)
  next
    case False
    then show ?thesis by simp
  qed
qed

lemma step_bullet:
  assumes "\<not> inCodeBlock st" and "match_bullet (trimEnd rawLine) = Some g"
  shows "step st rawLine = push_item UL g st"
  using assms(1) match_bullet_line [OF assms(2)]
  by (simp add: step_def assms(2) trimEnd_idem)

lemma step_ordered:
  assumes "\<not> inCodeBlock st" and "match_ordered (trimEnd rawLine) = Some g"
  shows "step st rawLine = push_item OL g st"
  using assms(1) match_ordered_line [OF assms(2)]
  by (simp add: step_def assms(2) trimEnd_idem)

lemma step_list_line:
  assumes "\<not> inCodeBlock st" and "list_line t rawLine"
  shows "step st rawLine =
           (let st1 = (if listType st \<noteq> Some t then (flushList st)\<lparr>listType := Some t\<rparr> else st)
            in st1\<lparr>listBuffer := listBuffer st1 @ [item_of t rawLine]\<rparr>)"
proof (cases t)
  case UL
  with assms(2) obtain g where g: "match_bullet (trimEnd rawLine) = Some g"
    by (auto simp: list_line_def)
  show ?thesis
    using step_bullet [OF assms(1) g] by (simp add: UL push_item_def item_of_def g)
next
  case OL
  with assms(2) obtain g where g: "match_ordered (trimEnd rawLine) = Some g"
    by (auto simp: list_line_def)
  show ?thesis
    using step_ordered [OF assms(1) g] by (simp add: OL push_item_def item_of_def g)
qed

lemma foldl_same_kind:
  assumes "\<forall>l\<in>set ls. list_line t l" and "\<not> inCodeBlock st" and "listType st = Some t"
  shows "foldl step st ls = st\<lparr>listBuffer := listBuffer st @ map (item_of t) ls\<rparr>"
  using assms
proof (induction ls arbitrary: st)
  case Nil
  then show ?case by simp
next
  case (Cons l ls)
  have s: "step st l = st\<lparr>listBuffer := listBuffer st @ [item_of t l]\<rparr>"
    using step_list_line [of st t l] Cons.prems by simp
  have "foldl step (step st l) ls
        = (step st l)\<lparr>listBuffer := listBuffer (step st l) @ map (item_of t) ls\<rparr>"
    by (rule Cons.IH) (use Cons.prems in \<open>simp_all add: s\<close>)
  then show ?case by (simp add: s)
qed

lemma group_lines:
  assumes "ls \<noteq> []" and "\<forall>l\<in>set ls. list_line t l" and "\<not> inCodeBlock st"
    and "listBuffer st = []" and "listType st = None"
  shows "flushList (foldl step st ls)
         = st\<lparr>html := html st @ list_block (Some t) (map (item_of t) ls)\<rparr>"
proof -
  from assms(1) obtain l ls' where ls: "ls = l # ls'" by (cases ls) auto
  have s: "step st l = st\<lparr>listType := Some t, listBuffer := [item_of t l]\<rparr>"
    using step_list_line [of st t l] assms by (simp add: ls flushList_def)
  have "foldl step (step st l) ls'
        = (step st l)\<lparr>listBuffer := listBuffer (step st l) @ map (item_of t) ls'\<rparr>"
    by (rule foldl_same_kind) (use assms in \<open>simp_all add: s ls\<close>)
  then show ?thesis
    using assms(4,5) by (simp add: ls s flushList_def)
qed

lemma kind_change:
  assumes "\<not> inCodeBlock st" and "listBuffer st \<noteq> []" and "listType st \<noteq> Some t"
    and "list_line t l"
  shows "step st l = st\<lparr>html := html st @ list_block (listType st) (listBuffer st),
                         listType := Some t, listBuffer := [item_of t l]\<rparr>"
  using step_list_line [OF assms(1,4)] assms(2,3) by (simp add: flushList_def)

text \<open>
  C7. From a state outside a code block with no open list, a non-empty run of list lines
  of one kind, followed by a flush, appends exactly one list block of that kind, holding
  the items of the lines in their order. A list line of another kind than the open list
  flushes that list as a block of its own and starts a new list with the line's item.
  The inputs of the specification give one unordered list of two items, and an unordered
  list followed by an ordered list.
\<close>

theorem list_grouping:
  "(ls \<noteq> [] \<and> (\<forall>l\<in>set ls. list_line t l) \<and> \<not> inCodeBlock st
      \<and> listBuffer st = [] \<and> listType st = None \<longrightarrow>
      flushList (foldl step st ls)
        = st\<lparr>html := html st @ list_block (Some t) (map (item_of t) ls)\<rparr>)
   \<and> (\<not> inCodeBlock st \<and> listBuffer st \<noteq> [] \<and> listType st \<noteq> Some t \<and> list_line t l \<longrightarrow>
      step st l = st\<lparr>html := html st @ list_block (listType st) (listBuffer st),
                      listType := Some t, listBuffer := [item_of t l]\<rparr>)
   \<and> formatMessageText (js ''- a\<newline>- b'') = js ''<ul><li>a</li><li>b</li></ul>''
   \<and> formatMessageText (js ''1. a\<newline>2. b'') = js ''<ol><li>a</li><li>b</li></ol>''
   \<and> formatMessageText (js ''- a\<newline>1. b'') = js ''<ul><li>a</li></ul><ol><li>b</li></ol>''"
proof -
  have e: "formatMessageText (js ''- a\<newline>- b'') = js ''<ul><li>a</li><li>b</li></ul>''
   \<and> formatMessageText (js ''1. a\<newline>2. b'') = js ''<ol><li>a</li><li>b</li></ol>''
   \<and> formatMessageText (js ''- a\<newline>1. b'') = js ''<ul><li>a</li></ul><ol><li>b</li></ol>''"
    by (simp add: units classes inline_defs block_defs)
  show ?thesis
    using group_lines [of ls t st] kind_change [of st t l] e by blast
qed

theorem list_grouping_witness:
  "flushList (foldl step init [js ''* x'', js ''- **y**''])
     = init\<lparr>html := js ''<ul><li>x</li><li><strong>y</strong></li></ul>''\<rparr>
   \<and> step (step init (js ''1. x'')) (js ''- y'')
     = init\<lparr>html := js ''<ol><li>x</li></ol>'', listType := Some UL,
            listBuffer := [js ''<li>y</li>'']\<rparr>"
  using list_grouping [of "[js ''* x'', js ''- **y**'']" UL init]
    list_grouping [of _ UL "step init (js ''1. x'')" "js ''- y''"]
  by (simp add: units classes inline_defs block_defs item_of_def list_line_def)

section \<open>The end of the input\<close>

lemma html_final:
  "html (flushCode (flushList st))
   = html st
     @ (if listBuffer st = [] then [] else list_block (listType st) (listBuffer st))
     @ (if codeBuffer st = [] then [] else code_block (codeBuffer st))"
  by (simp add: flushCode_def flushList_def)

text \<open>
  C8. The renderer is a function of the input string: every loop of the model is a
  recursion whose termination is proved, and no operation of it can fail. Its result is
  \<^verbatim>\<open>html\<close> after the scan, followed by the open list as one list block and by the
  buffered code lines as one code block (the lines joined by a line feed, then escaped
  once); the inline-formatted input where all of this is empty. When the input ends
  inside a code block with lines buffered, the result ends with that code block; when it
  ends with a list open, the list has a type and the result ends with that list block.
\<close>

theorem end_of_input:
  "formatMessageText text =
     (let st = scan text;
          out = html st
            @ (if listBuffer st = [] then [] else list_block (listType st) (listBuffer st))
            @ (if codeBuffer st = [] then [] else code_block (codeBuffer st))
      in if out = [] then applyInlineFormatting text else out)
   \<and> (inCodeBlock (scan text) \<and> codeBuffer (scan text) \<noteq> [] \<longrightarrow>
        formatMessageText text
          = html (scan text) @ js ''<pre><code>''
              @ escapeHtml (join [newline] (codeBuffer (scan text))) @ js ''</code></pre>'')
   \<and> (listBuffer (scan text) \<noteq> [] \<longrightarrow>
        listType (scan text) \<noteq> None
        \<and> formatMessageText text
          = html (scan text) @ list_block (listType (scan text)) (listBuffer (scan text)))
   \<and> formatMessageText (js ''x\<newline>```\<newline>a<b\<newline> c'')
       = js ''<p>x</p><pre><code>a&lt;b\<newline> c</code></pre>''
   \<and> formatMessageText (js ''x\<newline>1. a\<newline>2. b'')
       = js ''<p>x</p><ol><li>a</li><li>b</li></ol>''"
proof -
  have a: "formatMessageText text =
     (let st = scan text;
          out = html st
            @ (if listBuffer st = [] then [] else list_block (listType st) (listBuffer st))
            @ (if codeBuffer st = [] then [] else code_block (codeBuffer st))
      in if out = [] then applyInlineFormatting text else out)"
    by (simp add: formatMessageText_def html_final Let_def)
  have x: "exclusive (scan text)" by (rule exclusive_scan)
  have b: "inCodeBlock (scan text) \<and> codeBuffer (scan text) \<noteq> [] \<longrightarrow>
        formatMessageText text
          = html (scan text) @ js ''<pre><code>''
              @ escapeHtml (join [newline] (codeBuffer (scan text))) @ js ''</code></pre>''"
    using x by (auto simp: a Let_def exclusive_def code_block_def js_def)
  have c: "listBuffer (scan text) \<noteq> [] \<longrightarrow>
        listType (scan text) \<noteq> None
        \<and> formatMessageText text
          = html (scan text) @ list_block (listType (scan text)) (listBuffer (scan text))"
    using x by (auto simp: a Let_def exclusive_def list_block_def js_def split: if_splits)
  have e: "formatMessageText (js ''x\<newline>```\<newline>a<b\<newline> c'')
       = js ''<p>x</p><pre><code>a&lt;b\<newline> c</code></pre>''
   \<and> formatMessageText (js ''x\<newline>1. a\<newline>2. b'')
       = js ''<p>x</p><ol><li>a</li><li>b</li></ol>''"
    by (simp add: units classes inline_defs block_defs)
  from a b c e show ?thesis by blast
qed

theorem end_of_input_witness:
  "inCodeBlock (scan (js ''```\<newline>a<b'')) \<and> codeBuffer (scan (js ''```\<newline>a<b'')) \<noteq> []
   \<and> formatMessageText (js ''```\<newline>a<b'') = js ''<pre><code>a&lt;b</code></pre>''
   \<and> listBuffer (scan (js ''- a'')) \<noteq> []
   \<and> formatMessageText (js ''- a'') = js ''<ul><li>a</li></ul>''"
  using end_of_input [of "js ''```\<newline>a<b''"] end_of_input [of "js ''- a''"]
  by (simp add: units classes inline_defs block_defs)

section \<open>Injection safety\<close>

subsection \<open>Languages of tokens\<close>

lemma lang_append: "a \<in> lang T \<Longrightarrow> b \<in> lang T \<Longrightarrow> a @ b \<in> lang T"
  by (induction rule: lang.induct) (auto intro: lang.intros)

lemma lang_mono: "s \<in> lang T \<Longrightarrow> T \<subseteq> T' \<Longrightarrow> s \<in> lang T'"
  by (induction rule: lang.induct) (auto intro: lang.intros)

lemma lang_token: "t \<in> T \<Longrightarrow> t \<in> lang T"
  using lang.token [of t T "[]"] by (simp add: lang.empty)

lemma lang_Cons: "[c] \<in> T \<Longrightarrow> s \<in> lang T \<Longrightarrow> c # s \<in> lang T"
  using lang.token [of "[c]" T s] by simp

lemma lang_concat: "\<forall>t\<in>set ts. t \<in> lang T \<Longrightarrow> concat ts \<in> lang T"
  by (induction ts) (auto intro: lang.empty lang_append)

lemma lang_split_aux:
  assumes "s \<in> lang T" and "\<And>t. t \<in> T \<Longrightarrow> x \<in> set t \<Longrightarrow> t = [x]"
  shows "s = a @ x # b \<Longrightarrow> a \<in> lang T \<and> b \<in> lang T"
  using assms(1)
proof (induction arbitrary: a rule: lang.induct)
  case empty
  then show ?case by simp
next
  case (token t s)
  from token.prems obtain u where
    u: "(t = a @ u \<and> u @ s = x # b) \<or> (t @ u = a \<and> s = u @ x # b)"
    by (auto simp: append_eq_append_conv2)
  then show ?case
  proof
    assume c: "t = a @ u \<and> u @ s = x # b"
    show ?thesis
    proof (cases u)
      case Nil
      with c have "s = [] @ x # b" and "a = t" by simp_all
      with token.IH [of "[]"] token.hyps(1) show ?thesis by (simp add: lang_token)
    next
      case (Cons y u')
      with c have "x \<in> set t" by auto
      with assms(2) token.hyps(1) have "t = [x]" by blast
      then have "length (a @ u) = 1" using c by simp
      with Cons have "a = []" and "u' = []" by simp_all
      with c Cons have "a = []" and "b = s" by simp_all
      with token.hyps(2) show ?thesis by (simp add: lang.empty)
    qed
  next
    assume c: "t @ u = a \<and> s = u @ x # b"
    with token.IH [of u] have "u \<in> lang T" and "b \<in> lang T" by simp_all
    with c token.hyps(1) show ?thesis by (auto intro: lang.token)
  qed
qed

lemma lang_split:
  assumes "a @ x # b \<in> lang T" and "\<And>t. t \<in> T \<Longrightarrow> x \<in> set t \<Longrightarrow> t = [x]"
  shows "a \<in> lang T" and "b \<in> lang T"
  using lang_split_aux [OF assms(1) assms(2) refl] by simp_all

lemma lang_strip:
  assumes "p @ s \<in> lang T" and "set p \<subseteq> {x}" and "\<And>t. t \<in> T \<Longrightarrow> x \<in> set t \<Longrightarrow> t = [x]"
  shows "s \<in> lang T"
  using assms(1,2)
proof (induction p)
  case Nil
  then show ?case by simp
next
  case (Cons y p)
  then have "[] @ x # (p @ s) \<in> lang T" by simp
  then have "p @ s \<in> lang T" using assms(3) by (rule lang_split(2))
  with Cons show ?case by simp
qed

lemma lang_uncons_aux:
  assumes "u \<in> lang T" and "\<And>t. t \<in> T \<Longrightarrow> t \<noteq> [] \<Longrightarrow> hd t = c \<Longrightarrow> t = [c]"
  shows "u = c # s \<Longrightarrow> s \<in> lang T"
  using assms(1)
proof (induction rule: lang.induct)
  case empty
  then show ?case by simp
next
  case (token t u)
  show ?case
  proof (cases t)
    case Nil
    with token show ?thesis by simp
  next
    case (Cons y t')
    with token.prems have "hd t = c" by simp
    with assms(2) token.hyps(1) Cons have "t = [c]" by blast
    with token.prems token.hyps(2) show ?thesis by simp
  qed
qed

lemma lang_uncons:
  assumes "c # s \<in> lang T" and "\<And>t. t \<in> T \<Longrightarrow> t \<noteq> [] \<Longrightarrow> hd t = c \<Longrightarrow> t = [c]"
  shows "s \<in> lang T"
  using lang_uncons_aux [OF assms(1) assms(2) refl] .

lemma inline_token_cases:
  assumes "t \<in> inline_tokens"
  obtains c where "t = [c]" and "plain c"
  | "t \<in> entities"
  | "t \<in> inline_tags"
  using assms by (auto simp: inline_tokens_def text_tokens_def entities_def)

lemma inline_token_nonempty: "t \<in> inline_tokens \<Longrightarrow> t \<noteq> []"
  by (auto simp: inline_tokens_def text_tokens_def entities_def inline_tags_def js_def)

lemma inline_token_atomic:
  assumes "t \<in> inline_tokens" and "x \<in> set t" and "x = star \<or> x = backtick \<or> x = 104"
  shows "t = [x]"
  using assms
  by (auto simp: inline_tokens_def text_tokens_def entities_def inline_tags_def js_def units)

lemma inline_token_head:
  assumes "t \<in> inline_tokens" and "t \<noteq> []" and "hd t = c" and "plain c"
  shows "t = [c]"
  using assms
  by (auto simp: inline_tokens_def text_tokens_def entities_def inline_tags_def js_def units plain_def)

lemma inline_strip_plain:
  assumes "p @ s \<in> lang inline_tokens" and "\<forall>c\<in>set p. plain c"
  shows "s \<in> lang inline_tokens"
  using assms
proof (induction p)
  case Nil
  then show ?case by simp
next
  case (Cons c p)
  then have "c # (p @ s) \<in> lang inline_tokens" and "plain c" by simp_all
  then have "p @ s \<in> lang inline_tokens"
    using inline_token_head by (blast intro: lang_uncons)
  with Cons show ?case by simp
qed

lemma plain_lang: "\<forall>c\<in>set p. plain c \<Longrightarrow> p \<in> lang text_tokens"
  by (induction p) (auto simp: text_tokens_def entities_def intro: lang.empty lang_Cons)

subsection \<open>The escaper writes text\<close>

lemma escape_unit_text: "escape_unit c \<in> lang text_tokens"
  by (rule lang_token) (auto simp: escape_unit_def text_tokens_def entities_def plain_def)

lemma escapeHtml_text: "escapeHtml s \<in> lang text_tokens"
  unfolding escapeHtml_concat by (rule lang_concat) (simp add: escape_unit_text)

subsection \<open>Bold and italic\<close>

lemma lazy_span_decomp:
  "lazy_span d s = Some (g, r) \<Longrightarrow> s = g @ d @ r"
proof (induction s arbitrary: g)
  case Nil
  then show ?case by simp
next
  case (Cons c s)
  show ?case
  proof (cases "prefix d s")
    case True
    then have "s = d @ drop (length d) s" by (auto simp: prefix_def)
    with Cons.prems True show ?thesis by (auto split: if_splits)
  next
    case False
    with Cons.prems obtain g' where "lazy_span d s = Some (g', r)" and "g = c # g'"
      by (auto split: if_splits option.splits)
    with Cons.IH [of g'] show ?thesis by simp
  qed
qed

lemma replace_delimited_skip:
  assumes "d \<noteq> []" and "hd d \<notin> set t"
  shows "replace_delimited d opn cls (t @ s) = t @ replace_delimited d opn cls s"
  using assms(2)
proof (induction t)
  case Nil
  then show ?case by simp
next
  case (Cons x t)
  obtain y d' where d: "d = y # d'" using assms(1) by (cases d) auto
  with Cons.prems have "\<not> prefix d (x # t @ s)" by auto
  with Cons show ?case by simp
qed

lemma replace_delimited_lang:
  assumes d: "d \<noteq> []" "set d \<subseteq> {star}"
    and opn: "opn \<in> lang inline_tokens" and cls: "cls \<in> lang inline_tokens"
  shows "s \<in> lang inline_tokens \<Longrightarrow> replace_delimited d opn cls s \<in> lang inline_tokens"
proof (induction "length s" arbitrary: s rule: less_induct)
  case less
  have hd: "hd d = star" using d by (cases d) auto
  have atomic: "\<And>t. t \<in> inline_tokens \<Longrightarrow> star \<in> set t \<Longrightarrow> t = [star]"
    by (rule inline_token_atomic) simp_all
  from less.prems show ?case
  proof (cases rule: lang.cases)
    case empty
    then show ?thesis by (simp add: lang.empty)
  next
    case (token t s')
    have ne: "t \<noteq> []" using token(2) by (rule inline_token_nonempty)
    then have shorter: "length s' < length s" by (simp add: token(1))
    show ?thesis
    proof (cases "star \<in> set t")
      case False
      then have "replace_delimited d opn cls s = t @ replace_delimited d opn cls s'"
        unfolding token(1) using d(1) hd by (simp add: replace_delimited_skip)
      moreover have "replace_delimited d opn cls s' \<in> lang inline_tokens"
        using shorter token(3) by (rule less.hyps)
      ultimately show ?thesis using token(2) by (simp add: lang.token)
    next
      case True
      then have t: "t = [star]" using token(2) atomic by blast
      then have s: "s = star # s'" using token(1) by simp
      have keep: "star # replace_delimited d opn cls s' \<in> lang inline_tokens"
        using less.hyps [OF shorter token(3)] token(2) t by (simp add: lang_Cons)
      show ?thesis
      proof (cases "prefix d s")
        case False
        then show ?thesis using keep by (simp add: s)
      next
        case pre: True
        show ?thesis
        proof (cases "lazy_span d (drop (length d) s)")
          case None
          then show ?thesis using keep pre by (simp add: s)
        next
          case (Some gr)
          obtain g r where gr: "gr = (g, r)" by (cases gr)
          from pre obtain rest where sd: "s = d @ rest" by (auto simp: prefix_def)
          then have rest: "drop (length d) s = rest" by simp
          from Some gr rest have dec: "rest = g @ d @ r"
            by (simp add: lazy_span_decomp)
          have "d @ g @ d @ r \<in> lang inline_tokens"
            using less.prems unfolding sd dec .
          then have "g @ d @ r \<in> lang inline_tokens"
            using d(2) atomic by (rule lang_strip)
          moreover obtain d' where d': "d = star # d'" using d by (cases d) auto
          ultimately have gs: "g @ star # (d' @ r) \<in> lang inline_tokens" by simp
          have g: "g \<in> lang inline_tokens"
            using gs atomic by (rule lang_split(1))
          have dr: "d' @ r \<in> lang inline_tokens"
            using gs atomic by (rule lang_split(2))
          have "set d' \<subseteq> {star}" using d(2) d' by simp
          with dr have r: "r \<in> lang inline_tokens"
            using atomic by (rule lang_strip)
          have "length r < length s"
            unfolding sd dec using d(1) by simp
          then have "replace_delimited d opn cls r \<in> lang inline_tokens"
            using r by (rule less.hyps)
          then have "opn @ g @ cls @ replace_delimited d opn cls r \<in> lang inline_tokens"
            using opn cls g by (simp add: lang_append)
          moreover have "replace_delimited d opn cls s
                         = opn @ g @ cls @ replace_delimited d opn cls r"
            using pre Some gr unfolding s by simp
          ultimately show ?thesis by simp
        qed
      qed
    qed
  qed
qed

lemma inline_tag_lang: "t \<in> inline_tags \<Longrightarrow> t \<in> lang inline_tokens"
  by (rule lang_token) (simp add: inline_tokens_def)

lemma replace_bold_lang:
  "s \<in> lang inline_tokens \<Longrightarrow> replace_bold s \<in> lang inline_tokens"
  unfolding replace_bold_def
  by (rule replace_delimited_lang) (simp_all add: inline_tag_lang inline_tags_def)

lemma replace_italic_lang:
  "s \<in> lang inline_tokens \<Longrightarrow> replace_italic s \<in> lang inline_tokens"
  unfolding replace_italic_def
  by (rule replace_delimited_lang) (simp_all add: inline_tag_lang inline_tags_def)

subsection \<open>Inline code\<close>

lemma replace_code_skip:
  "backtick \<notin> set t \<Longrightarrow> replace_code (t @ s) = t @ replace_code s"
  by (induction t) auto

lemma replace_code_lang:
  "s \<in> lang inline_tokens \<Longrightarrow> replace_code s \<in> lang inline_tokens"
proof (induction "length s" arbitrary: s rule: less_induct)
  case less
  have atomic: "\<And>t. t \<in> inline_tokens \<Longrightarrow> backtick \<in> set t \<Longrightarrow> t = [backtick]"
    by (rule inline_token_atomic) simp_all
  from less.prems show ?case
  proof (cases rule: lang.cases)
    case empty
    then show ?thesis by (simp add: lang.empty)
  next
    case (token t s')
    have ne: "t \<noteq> []" using token(2) by (rule inline_token_nonempty)
    then have shorter: "length s' < length s" by (simp add: token(1))
    show ?thesis
    proof (cases "backtick \<in> set t")
      case False
      then have "replace_code s = t @ replace_code s'"
        unfolding token(1) by (rule replace_code_skip)
      moreover have "replace_code s' \<in> lang inline_tokens"
        using shorter token(3) by (rule less.hyps)
      ultimately show ?thesis using token(2) by (simp add: lang.token)
    next
      case True
      then have t: "t = [backtick]" using token(2) atomic by blast
      then have s: "s = backtick # s'" using token(1) by simp
      define g where "g = takeWhile (\<lambda>x. x \<noteq> backtick) s'"
      define r where "r = dropWhile (\<lambda>x. x \<noteq> backtick) s'"
      have s': "s' = g @ r" by (simp add: g_def r_def)
      show ?thesis
      proof (cases "g \<noteq> [] \<and> r \<noteq> []")
        case False
        then have "replace_code s = backtick # replace_code s'"
          unfolding s g_def r_def by auto
        moreover have "replace_code s' \<in> lang inline_tokens"
          using shorter token(3) by (rule less.hyps)
        ultimately show ?thesis using token(2) t by (simp add: lang_Cons)
      next
        case True
        then obtain r' where r': "r = backtick # r'"
          using hd_dropWhile [of "\<lambda>x. x \<noteq> backtick" s'] by (cases r) (auto simp: r_def)
        have "g @ backtick # r' \<in> lang inline_tokens"
          using token(3) unfolding s' r' .
        then have g: "g \<in> lang inline_tokens" and rl: "r' \<in> lang inline_tokens"
          using atomic by (blast dest: lang_split)+
        have "length r' < length s" by (simp add: s s' r')
        then have "replace_code r' \<in> lang inline_tokens"
          using rl by (rule less.hyps)
        then have "js ''<code>'' @ g @ js ''</code>'' @ replace_code r' \<in> lang inline_tokens"
          using g by (simp add: lang_append inline_tag_lang inline_tags_def)
        moreover have "replace_code s = js ''<code>'' @ g @ js ''</code>'' @ replace_code r'"
          using True unfolding s by (simp add: g_def [symmetric] r_def [symmetric] r')
        ultimately show ?thesis by simp
      qed
    qed
  qed
qed

subsection \<open>Autolink\<close>

lemma inline_markup: "inline_tokens \<subseteq> markup_tokens"
  by (auto simp: inline_tokens_def markup_tokens_def generated_tags_def)

lemma text_markup: "text_tokens \<subseteq> markup_tokens"
  by (auto simp: markup_tokens_def)

lemma text_inline: "text_tokens \<subseteq> inline_tokens"
  by (auto simp: inline_tokens_def)

lemma match_scheme_None: "c \<noteq> 104 \<Longrightarrow> match_scheme (c # s) = None"
  by (simp add: match_scheme_def js_def)

lemma replace_link_skip:
  "104 \<notin> set t \<Longrightarrow> replace_link (t @ s) = t @ replace_link s"
  by (induction t) (auto simp: match_url_def match_scheme_None)

lemma match_scheme_decomp:
  assumes "match_scheme s = Some (sch, rest)"
  shows "s = sch @ rest" and "\<forall>c\<in>set sch. plain c" and "sch \<noteq> []"
  using assms
  by (auto simp: match_scheme_def prefix_def js_def plain_def units split: if_splits)

lemma url_run:
  "s \<in> lang inline_tokens \<Longrightarrow>
   takeWhile url_unit s \<in> lang text_tokens \<and> dropWhile url_unit s \<in> lang inline_tokens"
proof (induction rule: lang.induct)
  case empty
  then show ?case by (simp add: lang.empty)
next
  case (token t s)
  from token.hyps(1) show ?case
  proof (cases rule: inline_token_cases)
    case (1 c)
    then have "[c] \<in> text_tokens" and "[c] \<in> inline_tokens"
      by (simp_all add: text_tokens_def entities_def inline_tokens_def)
    then show ?thesis
      using token.IH token.hyps(2) by (auto simp: 1 intro: lang.empty lang_Cons)
  next
    case 2
    then have "\<forall>c\<in>set t. url_unit c"
      by (auto simp: entities_def js_def url_unit_def is_space_def lt_def)
    then have "takeWhile url_unit (t @ s) = t @ takeWhile url_unit s"
      and "dropWhile url_unit (t @ s) = dropWhile url_unit s"
      by (simp_all add: takeWhile_append2 dropWhile_append2)
    moreover have "t \<in> text_tokens" using 2 by (simp add: text_tokens_def)
    ultimately show ?thesis using token.IH by (simp add: lang.token)
  next
    case 3
    then obtain t' where "t = lt # t'"
      by (auto simp: inline_tags_def js_def lt_def)
    then have "takeWhile url_unit (t @ s) = []" and "dropWhile url_unit (t @ s) = t @ s"
      by (simp_all add: url_unit_def)
    then show ?thesis
      using token.hyps by (simp add: lang.empty lang.token)
  qed
qed

lemma link_tags_lang:
  "m \<in> lang text_tokens \<Longrightarrow> link_open m @ m @ js ''</a>'' \<in> lang markup_tokens"
proof -
  assume m: "m \<in> lang text_tokens"
  then have "link_open m \<in> markup_tokens" and "js ''</a>'' \<in> markup_tokens"
    by (auto simp: markup_tokens_def generated_tags_def link_tags_def)
  then have "link_open m \<in> lang markup_tokens" and "js ''</a>'' \<in> lang markup_tokens"
    by (simp_all add: lang_token)
  moreover have "m \<in> lang markup_tokens"
    using m text_markup by (rule lang_mono)
  ultimately show ?thesis by (simp add: lang_append)
qed

lemma replace_link_lang:
  "s \<in> lang inline_tokens \<Longrightarrow> replace_link s \<in> lang markup_tokens"
proof (induction "length s" arbitrary: s rule: less_induct)
  case less
  from less.prems show ?case
  proof (cases rule: lang.cases)
    case empty
    then show ?thesis by (simp add: lang.empty)
  next
    case (token t s')
    have ne: "t \<noteq> []" using token(2) by (rule inline_token_nonempty)
    then have shorter: "length s' < length s" by (simp add: token(1))
    have tm: "t \<in> markup_tokens" using token(2) inline_markup by blast
    have rest: "replace_link s' \<in> lang markup_tokens"
      using shorter token(3) by (rule less.hyps)
    show ?thesis
    proof (cases "104 \<in> set t")
      case False
      then have "replace_link s = t @ replace_link s'"
        unfolding token(1) by (rule replace_link_skip)
      then show ?thesis using rest tm by (simp add: lang.token)
    next
      case True
      then have t: "t = [104]" using token(2) by (auto intro: inline_token_atomic)
      then have s: "s = 104 # s'" using token(1) by simp
      show ?thesis
      proof (cases "match_url s")
        case None
        then have "replace_link s = 104 # replace_link s'" by (simp add: s)
        then show ?thesis using rest tm t by (simp add: lang_Cons)
      next
        case (Some mr)
        obtain m r where mr: "mr = (m, r)" by (cases mr)
        from Some mr obtain sch rst where ms: "match_scheme s = Some (sch, rst)"
          and m: "m = sch @ takeWhile url_unit rst" and r: "r = dropWhile url_unit rst"
          by (auto simp: match_url_def split: option.splits if_splits)
        note dec = match_scheme_decomp [OF ms]
        have "sch @ rst \<in> lang inline_tokens" using less.prems dec(1) by simp
        then have "rst \<in> lang inline_tokens" using dec(2) by (rule inline_strip_plain)
        then have run: "takeWhile url_unit rst \<in> lang text_tokens"
          and rl: "r \<in> lang inline_tokens"
          using url_run [of rst] by (simp_all add: r)
        have "m \<in> lang text_tokens"
          unfolding m using dec(2) run by (simp add: lang_append plain_lang)
        then have "link_open m @ m @ js ''</a>'' \<in> lang markup_tokens"
          by (rule link_tags_lang)
        moreover have "length r < length s"
          using Some mr by (simp add: match_url_shorter)
        then have "replace_link r \<in> lang markup_tokens"
          using rl by (rule less.hyps)
        ultimately have "(link_open m @ m @ js ''</a>'') @ replace_link r \<in> lang markup_tokens"
          by (rule lang_append)
        moreover have "replace_link s = link_open m @ m @ js ''</a>'' @ replace_link r"
          using Some mr by (simp add: s)
        ultimately show ?thesis by simp
      qed
    qed
  qed
qed

lemma applyInlineFormatting_lang: "applyInlineFormatting s \<in> lang markup_tokens"
proof -
  have "escapeHtml s \<in> lang inline_tokens"
    using escapeHtml_text text_inline by (rule lang_mono)
  then show ?thesis
    unfolding applyInlineFormatting_def
    by (intro replace_link_lang replace_code_lang replace_italic_lang replace_bold_lang)
qed

subsection \<open>Blocks\<close>

lemma tag_lang:
  "t \<in> block_tags \<union> inline_tags \<Longrightarrow> t \<in> lang markup_tokens"
  by (rule lang_token) (auto simp: markup_tokens_def generated_tags_def)

lemma wrap_lang:
  assumes "a \<in> block_tags \<union> inline_tags" and "b \<in> block_tags \<union> inline_tags"
    and "c \<in> lang markup_tokens"
  shows "a @ c @ b \<in> lang markup_tokens"
  using assms by (simp add: lang_append tag_lang)

lemma join_lang:
  "list_all (\<lambda>x. x \<in> lang T) xs \<Longrightarrow> join [] xs \<in> lang T"
  by (induction "[] :: jsstring" xs rule: join.induct) (simp_all add: lang.empty lang_append)

lemma list_block_lang:
  assumes "t \<noteq> None" and "list_all (\<lambda>x. x \<in> lang markup_tokens) items"
  shows "list_block t items \<in> lang markup_tokens"
proof -
  obtain k where t: "t = Some k" using assms(1) by auto
  have o: "js ''<'' @ show_listType t @ js ''>'' \<in> block_tags"
    and c: "js ''</'' @ show_listType t @ js ''>'' \<in> block_tags"
    unfolding t by (cases k; simp add: block_tags_def js_def)+
  have "join [] items \<in> lang markup_tokens"
    using assms(2) by (rule join_lang)
  then have "(js ''<'' @ show_listType t @ js ''>'') @ join [] items
          @ (js ''</'' @ show_listType t @ js ''>'') \<in> lang markup_tokens"
    using o c by (intro wrap_lang) simp_all
  then show ?thesis by (simp add: list_block_def)
qed

lemma code_block_lang: "code_block ls \<in> lang markup_tokens"
proof -
  have "escapeHtml (join [newline] ls) \<in> lang markup_tokens"
    using escapeHtml_text text_markup by (rule lang_mono)
  then have "js ''<code>'' @ escapeHtml (join [newline] ls) @ js ''</code>''
               \<in> lang markup_tokens"
    by (rule wrap_lang [rotated 2]) (simp_all add: inline_tags_def)
  then have "js ''<pre>'' @ (js ''<code>'' @ escapeHtml (join [newline] ls) @ js ''</code>'')
               @ js ''</pre>'' \<in> lang markup_tokens"
    by (rule wrap_lang [rotated 2]) (simp_all add: block_tags_def)
  then show ?thesis by (simp add: code_block_def js_def)
qed

lemma match_heading_level:
  "match_heading line = Some (hs, g) \<Longrightarrow> heading_level hs \<in> {3, 4, 5}"
  by (auto simp: match_heading_def heading_level_def Let_def split: if_splits option.splits)

lemma heading_block_lang:
  assumes "level \<in> {3, 4, 5}" and "c \<in> lang markup_tokens"
  shows "heading_block level c \<in> lang markup_tokens"
proof -
  have o: "js ''<h'' @ show_level level @ js ''>'' \<in> block_tags"
    and e: "js ''</h'' @ show_level level @ js ''>'' \<in> block_tags"
    using assms(1) by (auto simp: block_tags_def js_def show_level_def)
  have "(js ''<h'' @ show_level level @ js ''>'') @ c
          @ (js ''</h'' @ show_level level @ js ''>'') \<in> lang markup_tokens"
    using o e assms(2) by (intro wrap_lang) simp_all
  then show ?thesis by (simp add: heading_block_def)
qed

lemma list_item_lang: "c \<in> lang markup_tokens \<Longrightarrow> list_item c \<in> lang markup_tokens"
  unfolding list_item_def
  by (rule wrap_lang [rotated 2]) (simp_all add: block_tags_def)

lemma paragraph_block_lang:
  "c \<in> lang markup_tokens \<Longrightarrow> paragraph_block c \<in> lang markup_tokens"
  unfolding paragraph_block_def
  by (rule wrap_lang [rotated 2]) (simp_all add: block_tags_def)

lemma br_lang: "js ''<br>'' \<in> lang markup_tokens"
  by (rule tag_lang) (simp add: block_tags_def)

lemma safe_init: "safe_state init"
  by (simp add: safe_state_def init_def lang.empty)

lemma safe_flushList: "safe_state st \<Longrightarrow> safe_state (flushList st)"
  by (auto simp: safe_state_def flushList_def intro: lang_append list_block_lang)

lemma safe_flushCode: "safe_state st \<Longrightarrow> safe_state (flushCode st)"
  by (auto simp: safe_state_def flushCode_def intro: lang_append code_block_lang)

lemma safe_append:
  "safe_state st \<Longrightarrow> b \<in> lang markup_tokens \<Longrightarrow> safe_state (st\<lparr>html := html st @ b\<rparr>)"
  by (simp add: safe_state_def lang_append)

lemma safe_push_item: "safe_state st \<Longrightarrow> safe_state (push_item t g st)"
proof -
  assume st: "safe_state st"
  have item: "list_item (applyInlineFormatting g) \<in> lang markup_tokens"
    by (intro list_item_lang applyInlineFormatting_lang)
  show ?thesis
  proof (cases "listType st = Some t")
    case True
    then show ?thesis using st item by (simp add: push_item_def safe_state_def)
  next
    case False
    have "safe_state (flushList st)" using st by (rule safe_flushList)
    then show ?thesis using False item by (simp add: push_item_def safe_state_def)
  qed
qed

lemma safe_step: "safe_state st \<Longrightarrow> safe_state (step st rawLine)"
proof -
  assume st: "safe_state st"
  note fl = safe_flushList [OF st]
  have cb: "safe_state ((flushCode st)\<lparr>inCodeBlock := False\<rparr>)"
    using safe_flushCode [OF st] by (simp add: safe_state_def)
  have lb: "safe_state ((flushList st)\<lparr>inCodeBlock := True\<rparr>)"
    using fl by (simp add: safe_state_def)
  have push: "safe_state (st\<lparr>codeBuffer := codeBuffer st @ [rawLine]\<rparr>)"
    using st by (simp add: safe_state_def)
  have br: "safe_state ((flushList st)\<lparr>html := html (flushList st) @ js ''<br>''\<rparr>)"
    using fl br_lang by (rule safe_append)
  have par: "safe_state ((flushList st)\<lparr>html := html (flushList st)
               @ paragraph_block (applyInlineFormatting (trimEnd rawLine))\<rparr>)"
    using fl by (intro safe_append paragraph_block_lang applyInlineFormatting_lang)
  have hd: "\<And>hs g. match_heading (trimEnd rawLine) = Some (hs, g) \<Longrightarrow>
              safe_state ((flushList st)\<lparr>html := html (flushList st)
                 @ heading_block (heading_level hs) (applyInlineFormatting g)\<rparr>)"
    using fl
    by (intro safe_append heading_block_lang applyInlineFormatting_lang)
       (auto dest: match_heading_level)
  show ?thesis
    using cb lb push br par hd safe_push_item [OF st]
    by (simp add: step_def Let_def split: option.splits prod.splits)
qed

lemma safe_foldl: "safe_state st \<Longrightarrow> safe_state (foldl step st ls)"
  by (induction ls arbitrary: st) (simp_all add: safe_step)

lemma safe_scan: "safe_state (scan text)"
  by (simp add: scan_def safe_foldl safe_init)

subsection \<open>Where the markup characters stand\<close>

lemma occurs_middle: "occurs t (a @ t @ b) (length a)"
  by (simp add: occurs_def)

lemma occurs_lift:
  assumes "occurs e t j" and "j < length t"
  shows "occurs e (a @ t @ b) (length a + j)"
proof -
  from assms(1) have "length (take (length e) (drop j t)) = length e"
    unfolding occurs_def by (rule arg_cong)
  then have "length e \<le> length (drop j t)" by simp
  then show ?thesis
    using assms by (simp add: occurs_def)
qed

lemma lang_cover:
  "s \<in> lang T \<Longrightarrow> i < length s \<Longrightarrow>
   \<exists>a t b j. s = a @ t @ b \<and> t \<in> T \<and> j < length t \<and> i = length a + j"
proof (induction arbitrary: i rule: lang.induct)
  case empty
  then show ?case by simp
next
  case (token t s)
  show ?case
  proof (cases "i < length t")
    case True
    have "t @ s = [] @ t @ s \<and> t \<in> T \<and> i < length t \<and> i = length ([] :: jsstring) + i"
      using token.hyps(1) True by simp
    then show ?thesis by blast
  next
    case False
    then have "i - length t < length s" using token.prems by simp
    from token.IH [OF this] obtain a t' b j where
      "s = a @ t' @ b" "t' \<in> T" "j < length t'" "i - length t = length a + j"
      by blast
    then have "t @ s = (t @ a) @ t' @ b \<and> t' \<in> T \<and> j < length t' \<and> i = length (t @ a) + j"
      using False by simp
    then show ?thesis by blast
  qed
qed

lemma nth_hd_only:
  assumes "j < length t" and "t ! j = x" and "x \<notin> set (tl t)"
  shows "j = 0"
proof (cases j)
  case 0
  then show ?thesis .
next
  case (Suc k)
  then have "k < length (tl t)" using assms(1) by simp
  then have "tl t ! k \<in> set (tl t)" by (rule nth_mem)
  then show ?thesis using assms Suc by (simp add: nth_tl)
qed

lemma nth_last_only:
  assumes "j < length t" and "t ! j = x" and "x \<notin> set (butlast t)"
  shows "Suc j = length t"
proof (rule ccontr)
  assume "Suc j \<noteq> length t"
  then have j: "j < length (butlast t)" using assms(1) by simp
  then have "butlast t ! j \<in> set (butlast t)" by (rule nth_mem)
  then show False using assms j by (simp add: nth_butlast)
qed

lemma text_units:
  "u \<in> lang text_tokens \<Longrightarrow> lt \<notin> set u \<and> gt \<notin> set u"
  by (induction rule: lang.induct)
     (auto simp: text_tokens_def entities_def plain_def js_def units)

lemma fixed_tag_shape:
  assumes "t \<in> inline_tags \<union> block_tags \<union> {js ''</a>''}"
  shows "lt \<notin> set (tl t) \<and> gt \<notin> set (butlast t) \<and> amp \<notin> set t"
  using assms by (auto simp: inline_tags_def block_tags_def js_def units)

lemma link_open_shape:
  assumes "u \<in> lang text_tokens"
  shows "lt \<notin> set (tl (link_open u))" and "gt \<notin> set (butlast (link_open u))"
  using text_units [OF assms]
  by (simp_all add: link_open_def js_def units butlast_append)

lemma entity_shape:
  assumes "e \<in> entities"
  shows "lt \<notin> set e \<and> gt \<notin> set e \<and> amp \<notin> set (tl e)"
  using assms by (auto simp: entities_def js_def units)

lemma text_amp:
  assumes "u \<in> lang text_tokens" and "i < length u" and "u ! i = amp"
  shows "\<exists>e\<in>entities. occurs e u i"
proof -
  from lang_cover [OF assms(1,2)] obtain a t b j where
    u: "u = a @ t @ b" and t: "t \<in> text_tokens" and j: "j < length t" and i: "i = length a + j"
    by blast
  have tj: "t ! j = amp" using assms(3) j by (simp add: u i nth_append)
  from t have "t \<in> entities"
  proof (cases "t \<in> entities")
    case False
    with t obtain c where "t = [c]" and "plain c"
      by (auto simp: text_tokens_def entities_def)
    with tj j show ?thesis by (simp add: plain_def)
  qed simp
  moreover from this have "j = 0"
    using j tj entity_shape by (blast intro: nth_hd_only)
  ultimately show ?thesis
    using occurs_middle [of t a b] by (auto simp: u i)
qed

lemma token_lt:
  assumes "t \<in> markup_tokens" and "j < length t" and "t ! j = lt"
  shows "t \<in> generated_tags \<and> j = 0"
proof -
  have n: "t ! j \<in> set t" using assms(2) by (rule nth_mem)
  from assms(1) consider (plain) c where "t = [c]" "plain c" | (ent) "t \<in> entities"
    | (fixed) "t \<in> inline_tags \<union> block_tags \<union> {js ''</a>''}"
    | (link) u where "t = link_open u" "u \<in> lang text_tokens"
    by (auto simp: markup_tokens_def text_tokens_def entities_def generated_tags_def link_tags_def)
  then show ?thesis
  proof cases
    case plain
    then show ?thesis using assms(2,3) by (simp add: plain_def)
  next
    case ent
    then show ?thesis using n assms(3) entity_shape by auto
  next
    case fixed
    then have "t \<in> generated_tags" by (auto simp: generated_tags_def link_tags_def)
    moreover have "j = 0"
      using assms(2,3) fixed_tag_shape [OF fixed] by (blast intro: nth_hd_only)
    ultimately show ?thesis by simp
  next
    case link
    then have "t \<in> generated_tags" by (auto simp: generated_tags_def link_tags_def)
    moreover have "j = 0"
      using assms(2,3) link_open_shape(1) [OF link(2)] link(1) by (blast intro: nth_hd_only)
    ultimately show ?thesis by simp
  qed
qed

lemma token_gt:
  assumes "t \<in> markup_tokens" and "j < length t" and "t ! j = gt"
  shows "t \<in> generated_tags \<and> Suc j = length t"
proof -
  have n: "t ! j \<in> set t" using assms(2) by (rule nth_mem)
  from assms(1) consider (plain) c where "t = [c]" "plain c" | (ent) "t \<in> entities"
    | (fixed) "t \<in> inline_tags \<union> block_tags \<union> {js ''</a>''}"
    | (link) u where "t = link_open u" "u \<in> lang text_tokens"
    by (auto simp: markup_tokens_def text_tokens_def entities_def generated_tags_def link_tags_def)
  then show ?thesis
  proof cases
    case plain
    then show ?thesis using assms(2,3) by (simp add: plain_def)
  next
    case ent
    then show ?thesis using n assms(3) entity_shape by auto
  next
    case fixed
    then have "t \<in> generated_tags" by (auto simp: generated_tags_def link_tags_def)
    moreover have "Suc j = length t"
      using assms(2,3) fixed_tag_shape [OF fixed] by (blast intro: nth_last_only)
    ultimately show ?thesis by simp
  next
    case link
    then have "t \<in> generated_tags" by (auto simp: generated_tags_def link_tags_def)
    moreover have "Suc j = length t"
      using assms(2,3) link_open_shape(2) [OF link(2)] link(1) by (blast intro: nth_last_only)
    ultimately show ?thesis by simp
  qed
qed

lemma token_amp:
  assumes "t \<in> markup_tokens" and "j < length t" and "t ! j = amp"
  shows "\<exists>e\<in>entities. occurs e t j"
proof -
  have n: "t ! j \<in> set t" using assms(2) by (rule nth_mem)
  from assms(1) consider (plain) c where "t = [c]" "plain c" | (ent) "t \<in> entities"
    | (fixed) "t \<in> inline_tags \<union> block_tags \<union> {js ''</a>''}"
    | (link) u where "t = link_open u" "u \<in> lang text_tokens"
    by (auto simp: markup_tokens_def text_tokens_def entities_def generated_tags_def link_tags_def)
  then show ?thesis
  proof cases
    case plain
    then show ?thesis using assms(2,3) by (simp add: plain_def)
  next
    case ent
    then have "j = 0"
      using assms(2,3) entity_shape by (blast intro: nth_hd_only)
    then have "occurs t t j" by (simp add: occurs_def)
    then show ?thesis using ent by blast
  next
    case fixed
    then show ?thesis using n assms(3) fixed_tag_shape by auto
  next
    case link
    define p where "p = js ''<a href=\"''"
    define q where "q = js ''\" target=\"_blank\">''"
    have t: "t = p @ u @ q" by (simp add: link(1) link_open_def p_def q_def)
    have pq: "amp \<notin> set p" "amp \<notin> set q" by (simp_all add: p_def q_def js_def amp_def)
    have lo: "length p \<le> j"
    proof (rule ccontr)
      assume "\<not> length p \<le> j"
      then have "t ! j = p ! j" and "j < length p" by (simp_all add: t nth_append)
      then have "t ! j \<in> set p" by simp
      then show False using pq(1) assms(3) by simp
    qed
    have hi: "j < length p + length u"
    proof (rule ccontr)
      assume a: "\<not> j < length p + length u"
      have "(p @ u) @ q = t" by (simp add: t)
      then have "t ! j = q ! (j - length (p @ u))"
        using a by (metis length_append nth_append)
      moreover have "j - length (p @ u) < length q"
        using a assms(2) by (simp add: t)
      ultimately have "t ! j \<in> set q" by simp
      then show False using pq(2) assms(3) by simp
    qed
    define k where "k = j - length p"
    have k: "j = length p + k" "k < length u"
      using lo hi by (simp_all add: k_def)
    have "t ! (length p + k) = u ! k"
      unfolding t using k(2) by (simp add: nth_append)
    then have "u ! k = amp" using assms(3) k(1) by simp
    from text_amp [OF link(2) k(2) this] obtain e where e: "e \<in> entities" "occurs e u k"
      by blast
    have "occurs e (p @ u @ q) (length p + k)"
      using e(2) k(2) by (rule occurs_lift)
    then have "occurs e t j" by (simp add: t k(1))
    then show ?thesis using e(1) by blast
  qed
qed

lemma markup_positions:
  assumes "s \<in> lang markup_tokens" and "i < length s"
  shows "(s ! i = lt \<longrightarrow> (\<exists>t\<in>generated_tags. occurs t s i))
       \<and> (s ! i = gt \<longrightarrow> (\<exists>t\<in>generated_tags. length t \<le> Suc i \<and> occurs t s (Suc i - length t)))
       \<and> (s ! i = amp \<longrightarrow> (\<exists>e\<in>entities. occurs e s i))"
proof -
  from lang_cover [OF assms] obtain a t b j where
    s: "s = a @ t @ b" and t: "t \<in> markup_tokens" and j: "j < length t" and i: "i = length a + j"
    by blast
  have sj: "s ! i = t ! j" using j by (simp add: s i nth_append)
  have "s ! i = lt \<longrightarrow> (\<exists>t\<in>generated_tags. occurs t s i)"
  proof
    assume "s ! i = lt"
    with token_lt [OF t j] sj have "t \<in> generated_tags" and "j = 0" by simp_all
    then show "\<exists>t\<in>generated_tags. occurs t s i"
      using occurs_middle [of t a b] by (auto simp: s i)
  qed
  moreover have "s ! i = gt \<longrightarrow>
      (\<exists>t\<in>generated_tags. length t \<le> Suc i \<and> occurs t s (Suc i - length t))"
  proof
    assume "s ! i = gt"
    with token_gt [OF t j] sj have g: "t \<in> generated_tags" and "Suc j = length t" by simp_all
    then have "length t \<le> Suc i" and "Suc i - length t = length a" by (simp_all add: i)
    then show "\<exists>t\<in>generated_tags. length t \<le> Suc i \<and> occurs t s (Suc i - length t)"
      using occurs_middle [of t a b] g by (auto simp: s)
  qed
  moreover have "s ! i = amp \<longrightarrow> (\<exists>e\<in>entities. occurs e s i)"
  proof
    assume "s ! i = amp"
    with token_amp [OF t j] sj obtain e where e: "e \<in> entities" "occurs e t j" by auto
    have "occurs e (a @ t @ b) (length a + j)" using e(2) j by (rule occurs_lift)
    then show "\<exists>e\<in>entities. occurs e s i" using e(1) by (auto simp: s i)
  qed
  ultimately show ?thesis by blast
qed

text \<open>
  The escaper leaves the double quote as it is, and the address of a hyperlink is copied
  into the \<^verbatim>\<open>href\<close> attribute between double quotes: a quote in the address ends the
  attribute. The property below is about \<^verbatim>\<open><\<close>, \<^verbatim>\<open>>\<close> and \<^verbatim>\<open>&\<close> only.
\<close>

lemma quote_in_address:
  \<open>applyInlineFormatting (js ''http://x"y'')
     = js ''<a href="http://x"y" target="_blank">http://x"y</a>''\<close>
  by (simp add: units classes inline_defs)

text \<open>
  C1. For every input, the string the renderer returns is a sequence of tokens, each of
  them a code unit other than \<^verbatim>\<open><\<close>, \<^verbatim>\<open>>\<close>, \<^verbatim>\<open>&\<close>, one of the entities
  \<^verbatim>\<open>&amp;\<close>, \<^verbatim>\<open>&lt;\<close>, \<^verbatim>\<open>&gt;\<close>, or a tag the renderer generates (the address in a
  hyperlink tag being itself such text). So every \<^verbatim>\<open><\<close> of the output is the first
  unit of a generated tag standing there, every \<^verbatim>\<open>>\<close> the last unit of one, and every
  \<^verbatim>\<open>&\<close> the first unit of an entity: the markup characters of the input appear as
  entities only. The same holds for the inline formatter alone.
\<close>

theorem injection_safety:
  "safe_markup (formatMessageText text)
   \<and> safe_markup (applyInlineFormatting text)
   \<and> (\<forall>i<length (formatMessageText text).
        (formatMessageText text ! i = lt \<longrightarrow>
           (\<exists>t\<in>generated_tags. occurs t (formatMessageText text) i))
        \<and> (formatMessageText text ! i = gt \<longrightarrow>
           (\<exists>t\<in>generated_tags. length t \<le> Suc i
              \<and> occurs t (formatMessageText text) (Suc i - length t)))
        \<and> (formatMessageText text ! i = amp \<longrightarrow>
           (\<exists>e\<in>entities. occurs e (formatMessageText text) i)))"
proof -
  have "safe_state (flushCode (flushList (scan text)))"
    by (intro safe_flushCode safe_flushList safe_scan)
  then have "html (flushCode (flushList (scan text))) \<in> lang markup_tokens"
    by (simp add: safe_state_def)
  then have f: "formatMessageText text \<in> lang markup_tokens"
    using applyInlineFormatting_lang [of "text"]
    by (simp add: formatMessageText_def Let_def)
  show ?thesis
    using f applyInlineFormatting_lang [of "text"] markup_positions [OF f]
    by (simp add: safe_markup_def)
qed

theorem injection_safety_witness:
  \<open>formatMessageText (js ''<script>x</script> & **<b>** http://a.b/?q=<i>&r=1'')
     = js ''<p>&lt;script&gt;x&lt;/script&gt; &amp; <strong>&lt;b&gt;</strong> <a href="http://a.b/?q=&lt;i&gt;&amp;r=1" target="_blank">http://a.b/?q=&lt;i&gt;&amp;r=1</a></p>''
   \<and> safe_markup (js ''<p>&lt;script&gt;x&lt;/script&gt; &amp; <strong>&lt;b&gt;</strong> <a href="http://a.b/?q=&lt;i&gt;&amp;r=1" target="_blank">http://a.b/?q=&lt;i&gt;&amp;r=1</a></p>'')\<close>
proof -
  have e: \<open>formatMessageText (js ''<script>x</script> & **<b>** http://a.b/?q=<i>&r=1'')
     = js ''<p>&lt;script&gt;x&lt;/script&gt; &amp; <strong>&lt;b&gt;</strong> <a href="http://a.b/?q=&lt;i&gt;&amp;r=1" target="_blank">http://a.b/?q=&lt;i&gt;&amp;r=1</a></p>''\<close>
    by (simp add: units classes inline_defs block_defs)
  from injection_safety [of "js ''<script>x</script> & **<b>** http://a.b/?q=<i>&r=1''"]
  have "safe_markup (formatMessageText (js ''<script>x</script> & **<b>** http://a.b/?q=<i>&r=1''))"
    by (rule conjunct1)
  then show ?thesis unfolding e using e by simp
qed

end
